theory Spec2Isabelle
  imports Main "HOL-Library.Word"
begin

unbundle bit_operations_syntax

section \<open>libmobi: the DRM engine of \<^verbatim>\<open>src/encryption.c\<close>\<close>

text \<open>
  The C integer types are machine words: \<^verbatim>\<open>uint8_t\<close> and \<^verbatim>\<open>unsigned char\<close>
  are \<open>8 word\<close>, \<^verbatim>\<open>uint16_t\<close> is \<open>16 word\<close>, \<^verbatim>\<open>uint32_t\<close> is \<open>32 word\<close>;
  \<open>+\<close> and \<open>*\<close> on them wrap around. \<^verbatim>\<open>size_t\<close> counters are \<open>nat\<close>.
  A byte buffer is the list of its bytes, a pointer that may be \<^verbatim>\<open>NULL\<close> is an
  \<open>option\<close>.
\<close>

type_synonym u8 = "8 word"
type_synonym u16 = "16 word"
type_synonym u32 = "32 word"

datatype MOBI_RET =
    MOBI_SUCCESS
  | MOBI_INIT_FAILED
  | MOBI_DATA_CORRUPT
  | MOBI_MALLOC_FAILED
  | MOBI_DRM_PIDINV
  | MOBI_DRM_KEYNOTFOUND

definition KEYVEC1 :: "u8 list" where
  "KEYVEC1 = [0x72, 0x38, 0x33, 0xb0, 0xb4, 0xf2, 0xe3, 0xca,
              0xdf, 0x09, 0x01, 0xd6, 0xe2, 0xe0, 0x3f, 0x96]"

text \<open>\<^verbatim>\<open>"QDCVEPMU675RUBSZ"\<close> in ASCII.\<close>

definition KEYVEC1_V1 :: "u8 list" where
  "KEYVEC1_V1 = [0x51, 0x44, 0x43, 0x56, 0x45, 0x50, 0x4d, 0x55,
                 0x36, 0x37, 0x35, 0x52, 0x55, 0x42, 0x53, 0x5a]"

definition PIDSIZE :: nat where "PIDSIZE = 10"
definition KEYSIZE :: nat where "KEYSIZE = 16"
definition COOKIESIZE :: nat where "COOKIESIZE = 32"

subsection \<open>The allocator\<close>

text \<open>
  \<^verbatim>\<open>malloc\<close> and \<^verbatim>\<open>calloc\<close> belong to the environment. A run is given the
  outcomes of its successive allocation requests, \<open>True\<close> for a block and \<open>False\<close> for
  \<^verbatim>\<open>NULL\<close>; once the list is used up every further request succeeds, so \<open>[]\<close> is the
  environment in which memory never runs out. Every function that allocates takes the
  outcomes still to come and returns the ones it has not used. A function result of
  \<open>None\<close> stands for a run the C standard leaves undefined (a null pointer is
  dereferenced, or a buffer is read or written past its end).
\<close>

type_synonym heap = "bool list"

fun malloc :: "heap \<Rightarrow> bool \<times> heap" where
  "malloc [] = (True, [])"
| "malloc (b # bs) = (b, bs)"

subsection \<open>The PC1 cipher\<close>

record PK1 =
  si :: u16
  x1a2 :: u16
  x1a0 :: "u16 list"

text \<open>\<^verbatim>\<open>calloc(1, sizeof(PK1))\<close>: every field is zero, \<open>x1a0\<close> has eight cells.\<close>

definition PK1_zero :: PK1 where
  "PK1_zero = \<lparr>si = 0, x1a2 = 0, x1a0 = replicate 8 0\<rparr>"

text \<open>
  \<open>pk1_code\<close> returns the value of the C function together with the structure it has
  updated through the pointer. Each \<^verbatim>\<open>pk1_swap\<close> is a pair of simultaneous assignments.
\<close>

definition pk1_code :: "PK1 \<Rightarrow> nat \<Rightarrow> u16 \<times> PK1" where
  "pk1_code pk1 i =
     (let dx = x1a2 pk1 + of_nat i;
          ax = x1a0 pk1 ! i;
          cx = 0x015a;
          bx = 0x4e35;
          (ax, s) = (si pk1, ax);
          (ax, dx) = (dx, ax);
          ax = (if ax \<noteq> 0 then ax * bx else ax);
          (ax, cx) = (cx, ax);
          (ax, cx) = (if ax \<noteq> 0 then (ax * s, cx + ax * s) else (ax, cx));
          (ax, s) = (s, ax);
          ax = ax * bx;
          dx = dx + cx;
          ax = ax + 1
      in (ax XOR dx, pk1\<lparr>si := s, x1a2 := dx, x1a0 := (x1a0 pk1)[i := ax]\<rparr>))"

text \<open>\<^verbatim>\<open>(key[2i] * 256) + key[2i + 1]\<close>, assigned to a \<^verbatim>\<open>uint16_t\<close>.\<close>

definition key_word :: "u8 list \<Rightarrow> nat \<Rightarrow> u16" where
  "key_word key i = ucast (key ! (i * 2)) * 256 + ucast (key ! (i * 2 + 1))"

text \<open>The body of the \<^verbatim>\<open>for\<close> loop of \<open>pk1_assemble\<close> at index \<open>i\<close>.\<close>

definition pk1_assemble_step :: "u8 list \<Rightarrow> nat \<Rightarrow> u16 \<times> PK1 \<Rightarrow> u16 \<times> PK1" where
  "pk1_assemble_step key i st =
     (let (inter, pk1) = st;
          pk1 = pk1\<lparr>x1a0 := (x1a0 pk1)[i := x1a0 pk1 ! (i - 1) XOR key_word key i]\<rparr>;
          (c, pk1) = pk1_code pk1 i
      in (inter XOR c, pk1))"

function pk1_assemble_loop :: "u8 list \<Rightarrow> nat \<Rightarrow> u16 \<times> PK1 \<Rightarrow> u16 \<times> PK1" where
  "pk1_assemble_loop key i st =
     (if i < KEYSIZE div 2
      then pk1_assemble_loop key (i + 1) (pk1_assemble_step key i st)
      else st)"
  by pat_completeness auto
termination
  by (relation "measure (\<lambda>(key, i, st). KEYSIZE div 2 - i)") auto

definition pk1_assemble :: "PK1 \<Rightarrow> u8 list \<Rightarrow> u16 \<times> PK1" where
  "pk1_assemble pk1 key =
     (let pk1 = pk1\<lparr>x1a0 := (x1a0 pk1)[0 := key_word key 0]\<rparr>
      in pk1_assemble_loop key 1 (pk1_code pk1 0))"

text \<open>
  The \<^verbatim>\<open>while (length--)\<close> loops of the two cipher functions run over the bytes
  still to be read from \<^verbatim>\<open>in\<close>. The loop state is the PK1 structure, the local
  working copy of the key and the bytes written through \<^verbatim>\<open>out\<close> so far; one step is
  one pass through the loop body.
\<close>

type_synonym pk1_state = "PK1 \<times> u8 list \<times> u8 list"

fun pk1_decrypt_step :: "pk1_state \<Rightarrow> u8 \<Rightarrow> pk1_state" where
  "pk1_decrypt_step (pk1, key_copy, written) b =
     (let (inter, pk1) = pk1_assemble pk1 key_copy;
          cfc = (ucast (drop_bit 8 inter) :: u8);
          cfd = (ucast (inter AND 0xff) :: u8);
          c = b;
          c = c XOR (cfc XOR cfd);
          key_copy = map (\<lambda>k. k XOR c) key_copy
      in (pk1, key_copy, written @ [c]))"

fun pk1_decrypt_loop :: "pk1_state \<Rightarrow> u8 list \<Rightarrow> pk1_state" where
  "pk1_decrypt_loop st [] = st"
| "pk1_decrypt_loop st (b # bs) = pk1_decrypt_loop (pk1_decrypt_step st b) bs"

fun pk1_encrypt_step :: "pk1_state \<Rightarrow> u8 \<Rightarrow> pk1_state" where
  "pk1_encrypt_step (pk1, k, written) b =
     (let (inter, pk1) = pk1_assemble pk1 k;
          cfc = (ucast (drop_bit 8 inter) :: u8);
          cfd = (ucast (inter AND 0xff) :: u8);
          c = b;
          k = map (\<lambda>x. x XOR c) k;
          c = c XOR (cfc XOR cfd)
      in (pk1, k, written @ [c]))"

fun pk1_encrypt_loop :: "pk1_state \<Rightarrow> u8 list \<Rightarrow> pk1_state" where
  "pk1_encrypt_loop st [] = st"
| "pk1_encrypt_loop st (b # bs) = pk1_encrypt_loop (pk1_encrypt_step st b) bs"

text \<open>The bytes a whole run of the loop writes, from a zeroed PK1 structure.\<close>

definition pk1_decrypt_bytes :: "u8 list \<Rightarrow> u8 list \<Rightarrow> u8 list" where
  "pk1_decrypt_bytes key_copy bs = snd (snd (pk1_decrypt_loop (PK1_zero, key_copy, []) bs))"

definition pk1_encrypt_bytes :: "u8 list \<Rightarrow> u8 list \<Rightarrow> u8 list" where
  "pk1_encrypt_bytes k bs = snd (snd (pk1_encrypt_loop (PK1_zero, k, []) bs))"

text \<open>
  The two cipher functions on buffers that are distinct objects, which is how every
  call in the file passes them. \<open>out\<close> and \<open>inp\<close> are the contents of the buffers
  behind the two pointers (\<open>None\<close> for \<^verbatim>\<open>NULL\<close>); the result carries the contents of
  the output buffer after the call. The buffers must hold \<open>len\<close> bytes and the key
  \<open>KEYSIZE\<close> bytes. The PK1 structure comes from \<^verbatim>\<open>calloc\<close>, whose result is not
  checked: it is only dereferenced inside the loop.
\<close>

definition mobi_pk1_decrypt ::
  "u8 list option \<Rightarrow> u8 list option \<Rightarrow> nat \<Rightarrow> u8 list \<Rightarrow> heap
     \<Rightarrow> ((MOBI_RET \<times> u8 list option) \<times> heap) option" where
  "mobi_pk1_decrypt out inp len key h =
     (case (out, inp) of
        (Some ob, Some ib) \<Rightarrow>
          if length key < KEYSIZE \<or> length ib < len \<or> length ob < len then None
          else
            let key_copy = take KEYSIZE key;
                (pk1_ok, h) = malloc h
            in if len = 0 then Some ((MOBI_SUCCESS, Some ob), h)
               else if \<not> pk1_ok then None
               else Some ((MOBI_SUCCESS,
                           Some (pk1_decrypt_bytes key_copy (take len ib) @ drop len ob)), h)
      | _ \<Rightarrow> Some ((MOBI_INIT_FAILED, out), h))"

definition mobi_pk1_encrypt ::
  "u8 list option \<Rightarrow> u8 list option \<Rightarrow> nat \<Rightarrow> u8 list \<Rightarrow> heap
     \<Rightarrow> ((MOBI_RET \<times> u8 list option) \<times> heap) option" where
  "mobi_pk1_encrypt out inp len key h =
     (case (out, inp) of
        (Some ob, Some ib) \<Rightarrow>
          if length key < KEYSIZE \<or> length ib < len \<or> length ob < len then None
          else
            let (pk1_ok, h) = malloc h;
                k = take KEYSIZE key
            in if len = 0 then Some ((MOBI_SUCCESS, Some ob), h)
               else if \<not> pk1_ok then None
               else Some ((MOBI_SUCCESS,
                           Some (pk1_encrypt_bytes k (take len ib) @ drop len ob)), h)
      | _ \<Rightarrow> Some ((MOBI_INIT_FAILED, out), h))"

subsection \<open>The PC1 functions on shared memory\<close>

text \<open>
  The functions above take each buffer as an object of its own. The two cipher
  functions are given pointers, and what they leave in memory depends on how the
  buffers lie: here they run on a byte store, every address of which can be read and
  written, with \<open>out\<close>, \<open>inp\<close> and \<open>key\<close> the addresses passed (\<open>None\<close> for
  \<^verbatim>\<open>NULL\<close>). The result carries the memory after the call.
\<close>

type_synonym addr = nat
type_synonym memory = "addr \<Rightarrow> u8"

text \<open>The \<open>n\<close> bytes of memory from address \<open>a\<close> on.\<close>

primrec mem_bytes :: "memory \<Rightarrow> addr \<Rightarrow> nat \<Rightarrow> u8 list" where
  "mem_bytes mem a 0 = []"
| "mem_bytes mem a (Suc n) = mem a # mem_bytes mem (a + 1) n"

text \<open>A memory whose first bytes are those of a list; every other byte is zero.\<close>

definition mem_of :: "u8 list \<Rightarrow> memory" where
  "mem_of bs = (\<lambda>a. if a < length bs then bs ! a else 0)"

text \<open>
  The loops, with \<open>len\<close> passes still to run: \<^verbatim>\<open>*in++\<close> reads memory, \<^verbatim>\<open>*out++ = c\<close>
  updates it, and the working copy of the key is a local array outside the store.
\<close>

fun pk1_decrypt_mem_loop ::
  "nat \<Rightarrow> PK1 \<Rightarrow> u8 list \<Rightarrow> addr \<Rightarrow> addr \<Rightarrow> memory \<Rightarrow> memory" where
  "pk1_decrypt_mem_loop 0 pk1 key_copy out inp mem = mem"
| "pk1_decrypt_mem_loop (Suc len) pk1 key_copy out inp mem =
     (let (inter, pk1) = pk1_assemble pk1 key_copy;
          cfc = (ucast (drop_bit 8 inter) :: u8);
          cfd = (ucast (inter AND 0xff) :: u8);
          c = mem inp;
          c = c XOR (cfc XOR cfd);
          key_copy = map (\<lambda>k. k XOR c) key_copy
      in pk1_decrypt_mem_loop len pk1 key_copy (out + 1) (inp + 1) (mem(out := c)))"

fun pk1_encrypt_mem_loop ::
  "nat \<Rightarrow> PK1 \<Rightarrow> u8 list \<Rightarrow> addr \<Rightarrow> addr \<Rightarrow> memory \<Rightarrow> memory" where
  "pk1_encrypt_mem_loop 0 pk1 k out inp mem = mem"
| "pk1_encrypt_mem_loop (Suc len) pk1 k out inp mem =
     (let (inter, pk1) = pk1_assemble pk1 k;
          cfc = (ucast (drop_bit 8 inter) :: u8);
          cfd = (ucast (inter AND 0xff) :: u8);
          c = mem inp;
          k = map (\<lambda>x. x XOR c) k;
          c = c XOR (cfc XOR cfd)
      in pk1_encrypt_mem_loop len pk1 k (out + 1) (inp + 1) (mem(out := c)))"

text \<open>
  \<^verbatim>\<open>memcpy\<close> fills the local key array from the \<open>KEYSIZE\<close> bytes at \<open>key\<close>, once,
  before the loop.
\<close>

definition mobi_pk1_decrypt_mem ::
  "addr option \<Rightarrow> addr option \<Rightarrow> nat \<Rightarrow> addr \<Rightarrow> memory \<Rightarrow> heap
     \<Rightarrow> ((MOBI_RET \<times> memory) \<times> heap) option" where
  "mobi_pk1_decrypt_mem out inp len key mem h =
     (case (out, inp) of
        (Some out, Some inp) \<Rightarrow>
          let key_copy = mem_bytes mem key KEYSIZE;
              (pk1_ok, h) = malloc h
          in if len = 0 then Some ((MOBI_SUCCESS, mem), h)
             else if \<not> pk1_ok then None
             else Some ((MOBI_SUCCESS, pk1_decrypt_mem_loop len PK1_zero key_copy out inp mem), h)
      | _ \<Rightarrow> Some ((MOBI_INIT_FAILED, mem), h))"

definition mobi_pk1_encrypt_mem ::
  "addr option \<Rightarrow> addr option \<Rightarrow> nat \<Rightarrow> addr \<Rightarrow> memory \<Rightarrow> heap
     \<Rightarrow> ((MOBI_RET \<times> memory) \<times> heap) option" where
  "mobi_pk1_encrypt_mem out inp len key mem h =
     (case (out, inp) of
        (Some out, Some inp) \<Rightarrow>
          let (pk1_ok, h) = malloc h;
              k = mem_bytes mem key KEYSIZE
          in if len = 0 then Some ((MOBI_SUCCESS, mem), h)
             else if \<not> pk1_ok then None
             else Some ((MOBI_SUCCESS, pk1_encrypt_mem_loop len PK1_zero k out inp mem), h)
      | _ \<Rightarrow> Some ((MOBI_INIT_FAILED, mem), h))"

subsection \<open>Key checksum\<close>

text \<open>The \<^verbatim>\<open>size_t\<close> sum of the sixteen bytes cannot overflow; the cast keeps its low byte.\<close>

function keychecksum_loop :: "u8 list \<Rightarrow> nat \<Rightarrow> nat \<Rightarrow> nat" where
  "keychecksum_loop key i s =
     (if i < KEYSIZE then keychecksum_loop key (i + 1) (s + unat (key ! i)) else s)"
  by pat_completeness auto
termination
  by (relation "measure (\<lambda>(key, i, s). KEYSIZE - i)") auto

definition mobi_drm_keychecksum :: "u8 list \<Rightarrow> u8" where
  "mobi_drm_keychecksum key = of_nat (keychecksum_loop key 0 0)"

subsection \<open>The book handle\<close>

text \<open>
  Modelled from the spec: the structures behind \<^verbatim>\<open>MOBIData\<close> are declared in the
  library's public header, which is not among the sources. The records below hold the
  fields that \<^verbatim>\<open>encryption.c\<close> reads: the PalmDOC header strings \<open>type\<close> and
  \<open>creator\<close>, the \<open>encryption_type\<close> of the Record 0 header, the MOBI header fields
  (each one a pointer in the code, \<^verbatim>\<open>NULL\<close> when the field is absent), the bytes of the
  first PalmDB record, whose \<^verbatim>\<open>size\<close> is the number of bytes at \<^verbatim>\<open>data\<close>, and the
  stored key. \<open>MOBI_NOTSET\<close> is the "not set" sentinel \<^verbatim>\<open>0xFFFFFFFF\<close>.
\<close>

definition MOBI_NOTSET :: u32 where
  "MOBI_NOTSET = 0xffffffff"

record MOBIPdbHeader =
  type :: string
  creator :: string

record MOBIRecord0Header =
  encryption_type :: nat

record MOBIMobiHeader =
  header_length :: "u32 option"
  version :: "u32 option"
  drm_offset :: "u32 option"
  drm_count :: "u32 option"
  drm_size :: "u32 option"

record MOBIPdbRecord =
  data :: "u8 list"

definition rec_size :: "MOBIPdbRecord \<Rightarrow> nat" where
  "rec_size r = length (data r)"

record MOBIData =
  drm_key :: "u8 list option"
  ph :: "MOBIPdbHeader option"
  rh :: "MOBIRecord0Header option"
  mh :: "MOBIMobiHeader option"
  rec :: "MOBIPdbRecord option"

subsection \<open>The buffer cursor\<close>

text \<open>
  Modelled from the spec: \<^verbatim>\<open>buffer_init_null\<close>, \<^verbatim>\<open>buffer_setpos\<close>, \<^verbatim>\<open>buffer_get32\<close>,
  \<^verbatim>\<open>buffer_get8\<close>, \<^verbatim>\<open>buffer_seek\<close>, \<^verbatim>\<open>buffer_getpointer\<close> and \<^verbatim>\<open>buffer_getraw\<close>
  belong to the library's buffer module, which is not among the sources. The spec
  (sections 4.3 and 6.2) describes them as a cursor over the bytes of Record 0: it is
  positioned at an offset, reads big-endian numbers, skips bytes and hands out the next
  bytes, moving forward each time. The spec says nothing about a cursor that would leave
  Record 0, so every operation is defined only while it stays inside the \<open>maxlen\<close>
  bytes of the buffer and is \<open>None\<close> otherwise. \<^verbatim>\<open>buffer_init_null\<close> allocates the
  cursor, so it can return \<^verbatim>\<open>NULL\<close>.
\<close>

record MOBIBuffer =
  offset :: nat
  maxlen :: nat
  buf_data :: "u8 list"

definition buffer_init_null :: "nat \<Rightarrow> heap \<Rightarrow> MOBIBuffer option \<times> heap" where
  "buffer_init_null len h =
     (case malloc h of
        (True, h) \<Rightarrow> (Some \<lparr>offset = 0, maxlen = len, buf_data = []\<rparr>, h)
      | (False, h) \<Rightarrow> (None, h))"

definition buffer_setpos :: "MOBIBuffer \<Rightarrow> nat \<Rightarrow> MOBIBuffer option" where
  "buffer_setpos buf pos = (if pos \<le> maxlen buf then Some (buf\<lparr>offset := pos\<rparr>) else None)"

definition buffer_seek :: "MOBIBuffer \<Rightarrow> nat \<Rightarrow> MOBIBuffer option" where
  "buffer_seek buf diff =
     (if offset buf + diff \<le> maxlen buf then Some (buf\<lparr>offset := offset buf + diff\<rparr>) else None)"

definition buffer_getpointer :: "MOBIBuffer \<Rightarrow> nat \<Rightarrow> (u8 list \<times> MOBIBuffer) option" where
  "buffer_getpointer buf len =
     (if offset buf + len \<le> maxlen buf \<and> offset buf + len \<le> length (buf_data buf)
      then Some (take len (drop (offset buf) (buf_data buf)), buf\<lparr>offset := offset buf + len\<rparr>)
      else None)"

definition buffer_getraw :: "MOBIBuffer \<Rightarrow> nat \<Rightarrow> (u8 list \<times> MOBIBuffer) option" where
  "buffer_getraw buf len = buffer_getpointer buf len"

definition be32 :: "u8 list \<Rightarrow> nat \<Rightarrow> u32" where
  "be32 bs i =
     push_bit 24 (ucast (bs ! i)) OR push_bit 16 (ucast (bs ! (i + 1)))
       OR push_bit 8 (ucast (bs ! (i + 2))) OR ucast (bs ! (i + 3))"

definition buffer_get32 :: "MOBIBuffer \<Rightarrow> (u32 \<times> MOBIBuffer) option" where
  "buffer_get32 buf =
     (case buffer_getpointer buf 4 of
        None \<Rightarrow> None
      | Some (bs, buf) \<Rightarrow> Some (be32 bs 0, buf))"

definition buffer_get8 :: "MOBIBuffer \<Rightarrow> (u8 \<times> MOBIBuffer) option" where
  "buffer_get8 buf =
     (case buffer_getpointer buf 1 of
        None \<Rightarrow> None
      | Some (bs, buf) \<Rightarrow> Some (bs ! 0, buf))"

subsection \<open>The DRM record table\<close>

text \<open>
  \<open>cookie\<close> is a pointer into Record 0 in the code; Record 0 does not change while the
  table is in use, so the entry holds the 32 bytes the pointer refers to.
\<close>

record MOBIDrm =
  verification :: u32
  size_drm :: u32
  type_drm :: u32
  checksum :: u8
  cookie :: "u8 list"

text \<open>One pass through the body of the parser's loop after the entry has been allocated.\<close>

definition mobi_drm_parse_entry :: "MOBIBuffer \<Rightarrow> (MOBIDrm \<times> MOBIBuffer) option" where
  "mobi_drm_parse_entry buf =
     (case buffer_get32 buf of None \<Rightarrow> None | Some (v, buf) \<Rightarrow>
     (case buffer_get32 buf of None \<Rightarrow> None | Some (s, buf) \<Rightarrow>
     (case buffer_get32 buf of None \<Rightarrow> None | Some (t, buf) \<Rightarrow>
     (case buffer_get8 buf of None \<Rightarrow> None | Some (c, buf) \<Rightarrow>
     (case buffer_seek buf 3 of None \<Rightarrow> None | Some buf \<Rightarrow>
     (case buffer_getpointer buf COOKIESIZE of None \<Rightarrow> None | Some (ck, buf) \<Rightarrow>
        Some (\<lparr>verification = v, size_drm = s, type_drm = t, checksum = c, cookie = ck\<rparr>,
              buf)))))))"

text \<open>
  The loop \<^verbatim>\<open>for (i = 0; i < count; i++)\<close> with \<open>n\<close> passes still to run; \<open>drm\<close> holds
  the entries \<^verbatim>\<open>drm[0..i)\<close> filled so far. The result is the returned count together with
  the array: a failed \<^verbatim>\<open>calloc\<close> returns 0 and leaves the entries already filled.
\<close>

fun mobi_drm_parse_loop ::
  "nat \<Rightarrow> nat \<Rightarrow> MOBIBuffer \<Rightarrow> MOBIDrm list \<Rightarrow> heap \<Rightarrow> ((nat \<times> MOBIDrm list) \<times> heap) option" where
  "mobi_drm_parse_loop count 0 buf drm h = Some ((count, drm), h)"
| "mobi_drm_parse_loop count (Suc n) buf drm h =
     (case malloc h of
        (False, h) \<Rightarrow> Some ((0, drm), h)
      | (True, h) \<Rightarrow>
          (case mobi_drm_parse_entry buf of
             None \<Rightarrow> None
           | Some (d, buf) \<Rightarrow> mobi_drm_parse_loop count n buf (drm @ [d]) h))"

definition mobi_drm_parse :: "MOBIData option \<Rightarrow> heap \<Rightarrow> ((nat \<times> MOBIDrm list) \<times> heap) option" where
  "mobi_drm_parse m h =
     (case m of
        None \<Rightarrow> Some ((0, []), h)
      | Some m \<Rightarrow>
     (case mh m of
        None \<Rightarrow> Some ((0, []), h)
      | Some mhd \<Rightarrow>
     (case (drm_offset mhd, drm_count mhd, drm_size mhd) of
        (Some offs, Some count, Some sz) \<Rightarrow>
          if offs = MOBI_NOTSET \<or> count = 0 then Some ((0, []), h)
          else
            (case rec m of
               None \<Rightarrow> None
             | Some r \<Rightarrow>
            (case buffer_init_null (rec_size r) h of
               (None, h) \<Rightarrow> Some ((0, []), h)
             | (Some buf, h) \<Rightarrow>
                 let buf = buf\<lparr>buf_data := data r\<rparr>
                 in if unat (offs + sz) > rec_size r then Some ((0, []), h)
                    else
                      (case buffer_setpos buf (unat offs) of
                         None \<Rightarrow> None
                       | Some buf \<Rightarrow> mobi_drm_parse_loop (unat count) (unat count) buf [] h)))
      | _ \<Rightarrow> None)))"

subsection \<open>Cookie verification\<close>

definition mobi_drm_verify :: "u32 \<Rightarrow> u8 list \<Rightarrow> bool" where
  "mobi_drm_verify drm_verification ck =
     (let verif = be32 ck 0;
          flags = be32 ck 4
      in if verif = drm_verification \<and> flags AND 0x1f \<noteq> 0 then True else False)"

subsection \<open>Key recovery\<close>

text \<open>
  Local arrays that the code leaves uninitialised (\<^verbatim>\<open>tempkey\<close>, \<^verbatim>\<open>cookie\<close>,
  \<^verbatim>\<open>key_enc\<close>, \<^verbatim>\<open>key\<close>) are written in full before they are read; the model starts
  them at zero. The \<open>key\<close> argument of the recovery functions is the caller's array of
  \<open>KEYSIZE\<close> bytes, returned with its new contents.

  The loop of \<open>mobi_drm_getkey_v2\<close> over the entries \<^verbatim>\<open>drm[i]\<close> still to be tried.
\<close>

fun mobi_drm_getkey_v2_loop ::
  "u8 list \<Rightarrow> u8 \<Rightarrow> u8 \<Rightarrow> u8 list \<Rightarrow> MOBIDrm list \<Rightarrow> heap
     \<Rightarrow> ((MOBI_RET \<times> u8 list) \<times> heap) option" where
  "mobi_drm_getkey_v2_loop tempkey tempkey_checksum keyvec1_checksum key [] h =
     Some ((MOBI_DRM_KEYNOTFOUND, key), h)"
| "mobi_drm_getkey_v2_loop tempkey tempkey_checksum keyvec1_checksum key (d # ds) h =
     (if checksum d = tempkey_checksum then
        (case mobi_pk1_decrypt (Some (replicate COOKIESIZE 0)) (Some (cookie d)) COOKIESIZE tempkey h of
           None \<Rightarrow> None
         | Some ((ret, ck), h) \<Rightarrow>
             if ret \<noteq> MOBI_SUCCESS then Some ((ret, key), h)
             else
               (case ck of
                  None \<Rightarrow> None
                | Some ck \<Rightarrow>
                    if mobi_drm_verify (verification d) ck
                    then Some ((MOBI_SUCCESS, take KEYSIZE (drop 8 ck)), h)
                    else mobi_drm_getkey_v2_loop tempkey tempkey_checksum keyvec1_checksum key ds h))
      else if checksum d = keyvec1_checksum then
        (case mobi_pk1_decrypt (Some (replicate COOKIESIZE 0)) (Some (cookie d)) COOKIESIZE KEYVEC1 h of
           None \<Rightarrow> None
         | Some ((ret, ck), h) \<Rightarrow>
             if ret \<noteq> MOBI_SUCCESS then Some ((ret, key), h)
             else
               (case ck of
                  None \<Rightarrow> None
                | Some ck \<Rightarrow>
                    if mobi_drm_verify (verification d) ck
                    then Some ((MOBI_SUCCESS, take KEYSIZE (drop 8 ck)), h)
                    else mobi_drm_getkey_v2_loop tempkey tempkey_checksum keyvec1_checksum key ds h))
      else mobi_drm_getkey_v2_loop tempkey tempkey_checksum keyvec1_checksum key ds h)"

text \<open>
  \<open>pid\<close> is the array \<^verbatim>\<open>drm_pid\<close> of the caller; its first \<open>PIDSIZE - 2\<close> bytes are
  copied over the zeroed \<^verbatim>\<open>pid_nocrc\<close>. The code dereferences \<^verbatim>\<open>m->mh->drm_count\<close>
  without a test. \<open>drm_count'\<close> is the local \<^verbatim>\<open>size_t drm_count\<close>, the count returned by
  the parser.
\<close>

definition mobi_drm_getkey_v2 ::
  "u8 list \<Rightarrow> u8 list \<Rightarrow> MOBIData \<Rightarrow> heap \<Rightarrow> ((MOBI_RET \<times> u8 list) \<times> heap) option" where
  "mobi_drm_getkey_v2 key pid m h =
     (if length pid < PIDSIZE - 2 then None
      else
        let pid_nocrc = take (PIDSIZE - 2) pid @ replicate (KEYSIZE - (PIDSIZE - 2)) 0
        in
        (case mobi_pk1_encrypt (Some (replicate KEYSIZE 0)) (Some pid_nocrc) KEYSIZE KEYVEC1 h of
           None \<Rightarrow> None
         | Some ((ret, tempkey), h) \<Rightarrow>
             if ret \<noteq> MOBI_SUCCESS then Some ((ret, key), h)
             else
               (case tempkey of
                  None \<Rightarrow> None
                | Some tempkey \<Rightarrow>
                    let tempkey_checksum = mobi_drm_keychecksum tempkey;
                        keyvec1_checksum = mobi_drm_keychecksum KEYVEC1
                    in
                    (case mh m of
                       None \<Rightarrow> None
                     | Some mhd \<Rightarrow>
                    (case drm_count mhd of
                       None \<Rightarrow> None
                     | Some count \<Rightarrow>
                    (case malloc h of
                       (False, h) \<Rightarrow> Some ((MOBI_MALLOC_FAILED, key), h)
                     | (True, h) \<Rightarrow>
                    (case mobi_drm_parse (Some m) h of
                       None \<Rightarrow> None
                     | Some ((drm_count', drm), h) \<Rightarrow>
                         mobi_drm_getkey_v2_loop tempkey tempkey_checksum keyvec1_checksum key
                           (take drm_count' drm) h)))))))"

text \<open>
  The position of the encrypted key in Record 0 for encryption type 1; \<open>None\<close> when the
  code dereferences an absent \<^verbatim>\<open>header_length\<close>. The sum \<^verbatim>\<open>*m->mh->header_length + 16\<close>
  is a \<^verbatim>\<open>uint32_t\<close>. (The test \<^verbatim>\<open>m->mh == NULL\<close> inside the last branch of the code can
  never succeed there.)
\<close>

definition mobi_drm_getkey_v1_pos :: "MOBIData \<Rightarrow> MOBIPdbHeader \<Rightarrow> nat option" where
  "mobi_drm_getkey_v1_pos m phd =
     (if type phd = ''TEXt'' \<and> creator phd = ''REAd'' then Some 14
      else
        (case mh m of
           None \<Rightarrow> Some 144
         | Some mhd \<Rightarrow>
             (case version mhd of
                None \<Rightarrow> Some 144
              | Some v \<Rightarrow>
                  if v = MOBI_NOTSET then Some 144
                  else (case header_length mhd of
                          None \<Rightarrow> None
                        | Some hl \<Rightarrow> Some (unat (hl + 16))))))"

definition mobi_drm_getkey_v1 ::
  "u8 list \<Rightarrow> MOBIData option \<Rightarrow> heap \<Rightarrow> ((MOBI_RET \<times> u8 list) \<times> heap) option" where
  "mobi_drm_getkey_v1 key m h =
     (case m of
        None \<Rightarrow> Some ((MOBI_DATA_CORRUPT, key), h)
      | Some m \<Rightarrow>
     (case ph m of
        None \<Rightarrow> Some ((MOBI_DATA_CORRUPT, key), h)
      | Some phd \<Rightarrow>
     (case rec m of
        None \<Rightarrow> None
      | Some r \<Rightarrow>
     (case buffer_init_null (rec_size r) h of
        (None, h) \<Rightarrow> None
      | (Some buf, h) \<Rightarrow>
          let buf = buf\<lparr>buf_data := data r\<rparr>
          in
          (case mobi_drm_getkey_v1_pos m phd of
             None \<Rightarrow> None
           | Some pos \<Rightarrow>
          (case buffer_setpos buf pos of
             None \<Rightarrow> None
           | Some buf \<Rightarrow>
          (case buffer_getraw buf KEYSIZE of
             None \<Rightarrow> None
           | Some (key_enc, buf) \<Rightarrow>
          (case mobi_pk1_decrypt (Some key) (Some key_enc) KEYSIZE KEYVEC1_V1 h of
             None \<Rightarrow> None
           | Some ((ret, None), h) \<Rightarrow> None
           | Some ((ret, Some key), h) \<Rightarrow> Some ((ret, key), h)))))))))"

definition mobi_drm_getkey ::
  "u8 list \<Rightarrow> u8 list \<Rightarrow> MOBIData \<Rightarrow> heap \<Rightarrow> ((MOBI_RET \<times> u8 list) \<times> heap) option" where
  "mobi_drm_getkey key pid m h =
     (if (case rh m of None \<Rightarrow> False | Some r \<Rightarrow> encryption_type r = 1)
      then mobi_drm_getkey_v1 key (Some m) h
      else
        (case pid of
           [] \<Rightarrow> None
         | c # cs \<Rightarrow>
             if c = 0 then Some ((MOBI_INIT_FAILED, key), h)
             else mobi_drm_getkey_v2 key pid m h))"

subsection \<open>Decryption with the stored key\<close>

definition mobi_decrypt ::
  "u8 list option \<Rightarrow> u8 list option \<Rightarrow> nat \<Rightarrow> MOBIData option \<Rightarrow> heap
     \<Rightarrow> ((MOBI_RET \<times> u8 list option) \<times> heap) option" where
  "mobi_decrypt out inp len m h =
     (case m of
        None \<Rightarrow> Some ((MOBI_INIT_FAILED, out), h)
      | Some m \<Rightarrow>
          (case drm_key m of
             None \<Rightarrow> Some ((MOBI_INIT_FAILED, out), h)
           | Some k \<Rightarrow> mobi_pk1_decrypt out inp len k h))"

subsection \<open>PID verification\<close>

text \<open>
  Modelled from the spec: \<^verbatim>\<open>m_crc32\<close> is the CRC-32 provider, which the spec places
  outside the engine: "standard reflected CRC-32 as used by zlib/PKZIP", where the call
  \<^verbatim>\<open>crc32(seed, bytes)\<close> returns the running value. That function complements the seed,
  folds each byte in with eight shift steps over the polynomial \<^verbatim>\<open>0xEDB88320\<close> and
  complements the result.
\<close>

definition crc32_shift :: "u32 \<Rightarrow> u32" where
  "crc32_shift c = (if bit c 0 then drop_bit 1 c XOR 0xedb88320 else drop_bit 1 c)"

definition crc32_byte :: "u32 \<Rightarrow> u8 \<Rightarrow> u32" where
  "crc32_byte c b =
     crc32_shift (crc32_shift (crc32_shift (crc32_shift
       (crc32_shift (crc32_shift (crc32_shift (crc32_shift (c XOR ucast b))))))))"

fun crc32_bytes :: "u32 \<Rightarrow> u8 list \<Rightarrow> u32" where
  "crc32_bytes c [] = c"
| "crc32_bytes c (b # bs) = crc32_bytes (crc32_byte c b) bs"

definition m_crc32 :: "u32 \<Rightarrow> u8 list \<Rightarrow> u32" where
  "m_crc32 crc buf = NOT (crc32_bytes (NOT crc) buf)"

text \<open>The local array \<^verbatim>\<open>map\<close>; \<^verbatim>\<open>map_length\<close> is \<^verbatim>\<open>sizeof(map) - 1\<close>, a \<^verbatim>\<open>uint8_t\<close>.\<close>

definition pid_map :: string where
  "pid_map = ''ABCDEFGHIJKLMNPQRSTUVWXYZ123456789''"

definition map_length :: u8 where
  "map_length = of_nat (length pid_map)"

text \<open>
  One pass through the loop \<^verbatim>\<open>for (i = 0; i < 2; i++)\<close>: the state is \<open>crc\<close> and the
  characters of \<^verbatim>\<open>checksum\<close> computed so far.
\<close>

fun mobi_drm_pidverify_step :: "u32 \<times> string \<Rightarrow> u32 \<times> string" where
  "mobi_drm_pidverify_step (crc, chk) =
     (let b = (ucast (crc AND 0xff) :: u8);
          pos = (b div map_length) XOR (b mod map_length)
      in (drop_bit 8 crc, chk @ [pid_map ! unat (pos mod map_length)]))"

text \<open>\<open>pid\<close> is an array of \<open>PIDSIZE\<close> bytes.\<close>

definition mobi_drm_pidverify :: "u8 list \<Rightarrow> MOBI_RET" where
  "mobi_drm_pidverify pid =
     (let crc = NOT (m_crc32 0xffffffff (take (PIDSIZE - 2) pid));
          crc = crc XOR drop_bit 16 crc;
          (crc, chk) = mobi_drm_pidverify_step (mobi_drm_pidverify_step (crc, []))
      in if map of_char chk = take 2 (drop 8 pid) then MOBI_SUCCESS else MOBI_DRM_PIDINV)"

subsection \<open>Storing the key\<close>

text \<open>A C string is given by the characters at the pointer; it ends before the first NUL.\<close>

definition strlen :: "string \<Rightarrow> nat" where
  "strlen s = length (takeWhile (\<lambda>c. c \<noteq> CHR 0x00) s)"

text \<open>
  The first half of \<open>mobi_drm_setkey_internal\<close> for a handle whose encryption type is
  not 0: either an early return with a status code, or the array \<^verbatim>\<open>drm_pid\<close> to
  recover the key with.
\<close>

definition mobi_drm_setkey_pid :: "nat \<Rightarrow> string option \<Rightarrow> MOBI_RET + u8 list" where
  "mobi_drm_setkey_pid enc pid =
     (if enc > 1 then
        (case pid of
           None \<Rightarrow> Inl MOBI_INIT_FAILED
         | Some p \<Rightarrow>
             let pid_length = strlen p
             in if pid_length \<noteq> PIDSIZE then Inl MOBI_DRM_PIDINV
                else
                  let drm_pid = map of_char (take PIDSIZE p);
                      ret = mobi_drm_pidverify drm_pid
                  in if ret \<noteq> MOBI_SUCCESS then Inl ret else Inr drm_pid)
      else Inr (replicate PIDSIZE 0))"

definition mobi_drm_setkey_internal ::
  "MOBIData option \<Rightarrow> string option \<Rightarrow> heap \<Rightarrow> ((MOBI_RET \<times> MOBIData option) \<times> heap) option" where
  "mobi_drm_setkey_internal m pid h =
     (case m of
        None \<Rightarrow> Some ((MOBI_INIT_FAILED, m), h)
      | Some md \<Rightarrow>
     (case rh md of
        None \<Rightarrow> Some ((MOBI_INIT_FAILED, m), h)
      | Some r \<Rightarrow>
          if encryption_type r = 0 then Some ((MOBI_SUCCESS, m), h)
          else
            (case mobi_drm_setkey_pid (encryption_type r) pid of
               Inl ret \<Rightarrow> Some ((ret, m), h)
             | Inr drm_pid \<Rightarrow>
            (case mobi_drm_getkey (replicate KEYSIZE 0) drm_pid md h of
               None \<Rightarrow> None
             | Some ((ret, key), h) \<Rightarrow>
                 if ret \<noteq> MOBI_SUCCESS then Some ((ret, m), h)
                 else
                   (case drm_key md of
                      Some old \<Rightarrow> Some ((MOBI_SUCCESS, Some (md\<lparr>drm_key := Some key\<rparr>)), h)
                    | None \<Rightarrow>
                        (case malloc h of
                           (False, h) \<Rightarrow> Some ((MOBI_MALLOC_FAILED, m), h)
                         | (True, h) \<Rightarrow>
                             Some ((MOBI_SUCCESS, Some (md\<lparr>drm_key := Some key\<rparr>)), h)))))))"

section \<open>The claims' own words\<close>

text \<open>
  The definitions of this section are not taken from the code: they write down what
  the specification says, to be compared with the functions above.

  The two checksum characters of a PID over an alphabet of \<open>n\<close> symbols, as the
  specification computes them: the CRC of the first eight bytes is complemented and
  folded, and each of its two low bytes \<open>b\<close> selects the character at
  \<open>((b div n) XOR (b mod n)) mod n\<close>.
\<close>

definition pid_checksum_chars :: "nat \<Rightarrow> u8 list \<Rightarrow> string" where
  "pid_checksum_chars n pid =
     (let crc = NOT (m_crc32 0xffffffff (take 8 pid));
          crc = crc XOR drop_bit 16 crc;
          b0 = unat crc mod 256;
          b1 = unat (drop_bit 8 crc) mod 256
      in [pid_map ! (((b0 div n) XOR (b0 mod n)) mod n),
          pid_map ! (((b1 div n) XOR (b1 mod n)) mod n)])"

text \<open>
  The v2 recovery as the specification describes it. The temp key is the encryption
  of the zero-padded first eight PID bytes under \<open>KEYVEC1\<close>. A descriptor whose
  checksum is that of the temp key is decrypted with the temp key, one whose checksum is
  that of \<open>KEYVEC1\<close> with \<open>KEYVEC1\<close>, any other is skipped. A decrypted cookie is
  accepted when its first big-endian word is the descriptor's \<open>verification\<close> and
  the low five bits of its second word are not all zero; it then yields bytes 8..24 as
  the book key. The table is tried in order.
\<close>

definition v2_tempkey :: "u8 list \<Rightarrow> u8 list" where
  "v2_tempkey pid = pk1_encrypt_bytes KEYVEC1 (take 8 pid @ replicate 8 0)"

definition v2_cookie_plain :: "u8 list \<Rightarrow> MOBIDrm \<Rightarrow> u8 list option" where
  "v2_cookie_plain tempkey d =
     (if checksum d = mobi_drm_keychecksum tempkey then Some (pk1_decrypt_bytes tempkey (cookie d))
      else if checksum d = mobi_drm_keychecksum KEYVEC1 then Some (pk1_decrypt_bytes KEYVEC1 (cookie d))
      else None)"

definition v2_accepted :: "MOBIDrm \<Rightarrow> u8 list \<Rightarrow> bool" where
  "v2_accepted d plain = (be32 plain 0 = verification d \<and> be32 plain 4 AND 0x1f \<noteq> 0)"

definition v2_book_key :: "u8 list \<Rightarrow> MOBIDrm \<Rightarrow> u8 list option" where
  "v2_book_key tempkey d =
     (case v2_cookie_plain tempkey d of
        None \<Rightarrow> None
      | Some plain \<Rightarrow> if v2_accepted d plain then Some (take 16 (drop 8 plain)) else None)"

fun v2_first_key :: "u8 list \<Rightarrow> MOBIDrm list \<Rightarrow> u8 list option" where
  "v2_first_key tempkey [] = None"
| "v2_first_key tempkey (d # ds) =
     (case v2_book_key tempkey d of
        Some k \<Rightarrow> Some k
      | None \<Rightarrow> v2_first_key tempkey ds)"

section \<open>Example books\<close>

text \<open>
  The book of scenario S4 of the specification: encryption type 2 and a Record 0 that
  is one DRM entry. The entry has verification 7, size 48, type 1 and the checksum 56
  of the temp key of the PID \<^verbatim>\<open>12345678EL\<close>; its cookie is the encryption under that temp
  key of verification 7, flags 1, the book key 1, 2, ..., 16 and eight zero bytes.
\<close>

definition S4_entry :: "u8 list" where
  "S4_entry = [0, 0, 0, 7, 0, 0, 0, 48, 0, 0, 0, 1, 56, 0, 0, 0,
     191, 127, 253, 126, 12, 22, 179, 134, 246, 94, 32, 241, 170, 137, 56, 60,
     126, 240, 28, 141, 177, 32, 170, 254, 163, 199, 106, 177, 241, 73, 166, 7]"

definition S4_book :: MOBIData where
  "S4_book = \<lparr>drm_key = None, ph = None, rh = Some \<lparr>encryption_type = 2\<rparr>,
     mh = Some \<lparr>header_length = Some 232, version = Some 6, drm_offset = Some 0,
                drm_count = Some 1, drm_size = Some 48\<rparr>,
     rec = Some \<lparr>data = S4_entry\<rparr>\<rparr>"

text \<open>
  The encryption of the book key 1, 2, ..., 16 under \<open>KEYVEC1_V1\<close>, for the books of
  encryption type 1 (scenario S6).
\<close>

definition S6_key_enc :: "u8 list" where
  "S6_key_enc = [13, 104, 3, 51, 64, 157, 243, 176, 39, 70, 104, 144, 23, 46, 234, 87]"

text \<open>
  A book whose DRM entry lies inside Record 0 but whose header declares a table of
  \<^verbatim>\<open>0xFFFFFFF8\<close> bytes at offset 16: Record 0 has 64 bytes, sixteen zero bytes followed by
  the entry of scenario S4.
\<close>

definition wrap_record :: "u8 list" where
  "wrap_record = [0, 0, 0, 0, 0, 0, 0, 0, 0, 0, 0, 0, 0, 0, 0, 0,
     0, 0, 0, 7, 0, 0, 0, 48, 0, 0, 0, 1, 56, 0, 0, 0,
     191, 127, 253, 126, 12, 22, 179, 134, 246, 94, 32, 241, 170, 137, 56, 60,
     126, 240, 28, 141, 177, 32, 170, 254, 163, 199, 106, 177, 241, 73, 166, 7]"

definition wrap_book :: MOBIData where
  "wrap_book = \<lparr>drm_key = None, ph = None, rh = Some \<lparr>encryption_type = 2\<rparr>,
     mh = Some \<lparr>header_length = Some 232, version = Some 6, drm_offset = Some 16,
                drm_count = Some 1, drm_size = Some 0xfffffff8\<rparr>,
     rec = Some \<lparr>data = wrap_record\<rparr>\<rparr>"

section \<open>Properties\<close>

declare pk1_encrypt_step.simps [simp del] pk1_decrypt_step.simps [simp del]

subsection \<open>The allocator\<close>

lemma malloc_no_failure:
  "False \<notin> set h \<Longrightarrow> fst (malloc h) \<and> False \<notin> set (snd (malloc h))"
  by (cases h) auto

lemma malloc_tl: "snd (malloc h) = tl h"
  by (cases h) auto

lemma no_failure_tl: "False \<notin> set h \<Longrightarrow> False \<notin> set (tl h)"
  by (cases h) auto

lemma no_failure_drop: "False \<notin> set h \<Longrightarrow> False \<notin> set (drop n h)"
  by (meson in_set_dropD)

lemma malloc_ok: "False \<notin> set h \<Longrightarrow> malloc h = (True, tl h)"
  by (cases h) auto


subsection \<open>PC1: decryption undoes encryption\<close>

text \<open>
  The bytes an encryption step has already written do not influence the step: the loop
  started with \<open>w\<close> written bytes ends in the state of the loop started with none,
  with \<open>w\<close> in front of its output.
\<close>

lemma pk1_encrypt_step_written:
  "pk1_encrypt_step (pk1, k, w) b =
     (case pk1_encrypt_step (pk1, k, []) b of (p, k', e) \<Rightarrow> (p, k', w @ e))"
  by (simp add: pk1_encrypt_step.simps Let_def split: prod.splits)

lemma pk1_encrypt_loop_written:
  "pk1_encrypt_loop (pk1, k, w) bs =
     (case pk1_encrypt_loop (pk1, k, []) bs of (p, k', e) \<Rightarrow> (p, k', w @ e))"
proof (induction bs arbitrary: pk1 k w)
  case Nil
  show ?case by simp
next
  case (Cons b bs)
  obtain p1 k1 e1 where s: "pk1_encrypt_step (pk1, k, []) b = (p1, k1, e1)"
    by (cases "pk1_encrypt_step (pk1, k, []) b") auto
  have sw: "pk1_encrypt_step (pk1, k, w) b = (p1, k1, w @ e1)"
    using pk1_encrypt_step_written [of pk1 k w b] s by simp
  show ?case
    using Cons.IH [of p1 k1 "w @ e1"] Cons.IH [of p1 k1 e1]
    by (simp add: s sw split: prod.splits)
qed

lemma xor_mask_cancel: "(b XOR m) XOR m = (b :: u8)"
  by (simp add: xor.assoc)

text \<open>
  Both loops feed the plaintext byte into the working key, so while decryption reads
  what encryption wrote the two runs pass through the same PK1 structures and the
  same working keys.
\<close>

lemma pk1_decrypt_encrypt_loop:
  "pk1_decrypt_loop (pk1, k, w) (snd (snd (pk1_encrypt_loop (pk1, k, []) bs))) =
     (fst (pk1_encrypt_loop (pk1, k, []) bs), fst (snd (pk1_encrypt_loop (pk1, k, []) bs)), w @ bs)"
proof (induction bs arbitrary: pk1 k w)
  case Nil
  show ?case by simp
next
  case (Cons b bs)
  obtain inter p1 where a: "pk1_assemble pk1 k = (inter, p1)"
    by (cases "pk1_assemble pk1 k") auto
  define m where "m = (ucast (drop_bit 8 inter) :: u8) XOR ucast (inter AND 0xff)"
  define k1 where "k1 = map (\<lambda>x. x XOR b) k"
  have es: "pk1_encrypt_step (pk1, k, []) b = (p1, k1, [b XOR m])"
    by (simp add: pk1_encrypt_step.simps a m_def k1_def Let_def)
  obtain p2 k2 e2 where l: "pk1_encrypt_loop (p1, k1, []) bs = (p2, k2, e2)"
    by (cases "pk1_encrypt_loop (p1, k1, []) bs") auto
  have el: "pk1_encrypt_loop (pk1, k, []) (b # bs) = (p2, k2, (b XOR m) # e2)"
    using pk1_encrypt_loop_written [of p1 k1 "[b XOR m]" bs] by (simp add: es l)
  have ds: "pk1_decrypt_step (pk1, k, w) (b XOR m) = (p1, k1, w @ [b])"
    by (simp add: pk1_decrypt_step.simps a m_def [symmetric] k1_def Let_def xor_mask_cancel)
  have "pk1_decrypt_loop (pk1, k, w) ((b XOR m) # e2) = pk1_decrypt_loop (p1, k1, w @ [b]) e2"
    by (simp add: ds)
  also have "\<dots> = (p2, k2, (w @ [b]) @ bs)"
    using Cons.IH [of p1 k1 "w @ [b]"] by (simp add: l)
  finally have "pk1_decrypt_loop (pk1, k, w) ((b XOR m) # e2) = (p2, k2, w @ b # bs)"
    by simp
  then show ?case unfolding el by simp
qed

lemma pk1_decrypt_encrypt_bytes: "pk1_decrypt_bytes k (pk1_encrypt_bytes k p) = p"
  using pk1_decrypt_encrypt_loop [of PK1_zero k "[]" p]
  by (simp add: pk1_decrypt_bytes_def pk1_encrypt_bytes_def)

lemma length_pk1_encrypt_loop:
  "length (snd (snd (pk1_encrypt_loop (pk1, k, w) bs))) = length w + length bs"
proof (induction bs arbitrary: pk1 k w)
  case Nil
  show ?case by simp
next
  case (Cons b bs)
  obtain p1 k1 e1 where s: "pk1_encrypt_step (pk1, k, w) b = (p1, k1, e1)"
    by (cases "pk1_encrypt_step (pk1, k, w) b") auto
  have "length e1 = length w + 1"
    using s by (auto simp: pk1_encrypt_step.simps Let_def split: prod.splits)
  then show ?case using Cons.IH [of p1 k1 e1] by (simp add: s)
qed

lemma length_pk1_decrypt_loop:
  "length (snd (snd (pk1_decrypt_loop (pk1, k, w) bs))) = length w + length bs"
proof (induction bs arbitrary: pk1 k w)
  case Nil
  show ?case by simp
next
  case (Cons b bs)
  obtain p1 k1 e1 where s: "pk1_decrypt_step (pk1, k, w) b = (p1, k1, e1)"
    by (cases "pk1_decrypt_step (pk1, k, w) b") auto
  have "length e1 = length w + 1"
    using s by (auto simp: pk1_decrypt_step.simps Let_def split: prod.splits)
  then show ?case using Cons.IH [of p1 k1 e1] by (simp add: s)
qed

lemma length_pk1_encrypt_bytes [simp]: "length (pk1_encrypt_bytes k p) = length p"
  by (simp add: pk1_encrypt_bytes_def length_pk1_encrypt_loop)

lemma length_pk1_decrypt_bytes [simp]: "length (pk1_decrypt_bytes k p) = length p"
  by (simp add: pk1_decrypt_bytes_def length_pk1_decrypt_loop)

lemma pk1_encrypt_bytes_Nil [simp]: "pk1_encrypt_bytes k [] = []"
  by (simp add: pk1_encrypt_bytes_def)

lemma pk1_decrypt_bytes_Nil [simp]: "pk1_decrypt_bytes k [] = []"
  by (simp add: pk1_decrypt_bytes_def)

text \<open>
  Claim C1 (PC1 inverse law). For every key of 16 bytes and every byte sequence \<open>p\<close>
  of any length, \<open>mobi_pk1_encrypt\<close> on \<open>p\<close> succeeds, and \<open>mobi_pk1_decrypt\<close> with
  the same key on the bytes it wrote succeeds and writes \<open>p\<close>. The output buffers
  \<open>ob\<close> and \<open>ob'\<close> hold as many bytes as \<open>p\<close>, and no allocation fails.
\<close>

theorem pk1_decrypt_inverts_encrypt:
  assumes "length k = KEYSIZE" and "length ob = length p" and "length ob' = length p"
    and "False \<notin> set h"
  shows "mobi_pk1_encrypt (Some ob) (Some p) (length p) k h =
           Some ((MOBI_SUCCESS, Some (pk1_encrypt_bytes k p)), snd (malloc h))
       \<and> mobi_pk1_decrypt (Some ob') (Some (pk1_encrypt_bytes k p)) (length p) k (snd (malloc h)) =
           Some ((MOBI_SUCCESS, Some p), snd (malloc (snd (malloc h))))"
proof -
  have h1: "fst (malloc h)" and h2: "fst (malloc (snd (malloc h)))"
    using assms(4) malloc_no_failure by blast+
  have enc: "mobi_pk1_encrypt (Some ob) (Some p) (length p) k h =
           Some ((MOBI_SUCCESS, Some (pk1_encrypt_bytes k p)), snd (malloc h))"
    using assms(1,2) h1
    by (cases "malloc h") (auto simp: mobi_pk1_encrypt_def)
  have dec: "mobi_pk1_decrypt (Some ob') (Some (pk1_encrypt_bytes k p)) (length p) k (snd (malloc h)) =
           Some ((MOBI_SUCCESS, Some p), snd (malloc (snd (malloc h))))"
    using assms(1,3) h2 pk1_decrypt_encrypt_bytes [of k p]
    by (cases "malloc (snd (malloc h))") (auto simp: mobi_pk1_decrypt_def)
  show ?thesis using enc dec by simp
qed

text \<open>
  The scenario S1 of the spec: sixteen zero bytes under the key \<open>KEYVEC1_V1\<close>, with the
  ciphertext the code produces.
\<close>

lemma pk1_encrypt_KEYVEC1_V1_zeros:
  "pk1_encrypt_bytes KEYVEC1_V1 (replicate 16 0) =
     [12, 202, 222, 216, 94, 107, 251, 51, 87, 90, 242, 230, 5, 243, 237, 139]"
  by code_simp

theorem pk1_decrypt_inverts_encrypt_witness:
  "length KEYVEC1_V1 = KEYSIZE \<and> False \<notin> set ([] :: heap)
   \<and> mobi_pk1_encrypt (Some (replicate 16 0)) (Some (replicate 16 0)) 16 KEYVEC1_V1 [] =
       Some ((MOBI_SUCCESS,
              Some [12, 202, 222, 216, 94, 107, 251, 51, 87, 90, 242, 230, 5, 243, 237, 139]), [])
   \<and> mobi_pk1_decrypt (Some (replicate 16 0))
        (Some [12, 202, 222, 216, 94, 107, 251, 51, 87, 90, 242, 230, 5, 243, 237, 139])
        16 KEYVEC1_V1 [] =
       Some ((MOBI_SUCCESS, Some (replicate 16 0)), [])"
proof -
  have l: "length KEYVEC1_V1 = KEYSIZE"
    by (simp add: KEYVEC1_V1_def KEYSIZE_def)
  have n: "False \<notin> set ([] :: heap)"
    by simp
  have r: "length (replicate 16 (0 :: u8)) = length (replicate 16 (0 :: u8))"
    by simp
  show ?thesis
    using l n pk1_decrypt_inverts_encrypt [OF l r r n]
    by (simp add: pk1_encrypt_KEYVEC1_V1_zeros)
qed

subsection \<open>PC1 on shared memory\<close>

text \<open>The loops write inside the output buffer only.\<close>

lemma pk1_decrypt_mem_loop_frame:
  "a \<notin> {out..<out + len} \<Longrightarrow> pk1_decrypt_mem_loop len pk1 key_copy out inp mem a = mem a"
proof (induction len arbitrary: pk1 key_copy out inp mem)
  case 0
  show ?case by simp
next
  case (Suc len)
  have "a \<notin> {out + 1..<out + 1 + len}" and "a \<noteq> out"
    using Suc.prems by auto
  then show ?case
    using Suc.IH by (simp add: Let_def split: prod.splits)
qed

lemma pk1_encrypt_mem_loop_frame:
  "a \<notin> {out..<out + len} \<Longrightarrow> pk1_encrypt_mem_loop len pk1 k out inp mem a = mem a"
proof (induction len arbitrary: pk1 k out inp mem)
  case 0
  show ?case by simp
next
  case (Suc len)
  have "a \<notin> {out + 1..<out + 1 + len}" and "a \<noteq> out"
    using Suc.prems by auto
  then show ?case
    using Suc.IH by (simp add: Let_def split: prod.splits)
qed

lemma mem_bytes_cong:
  "(\<And>a. a \<in> {b..<b + n} \<Longrightarrow> mem' a = mem a) \<Longrightarrow> mem_bytes mem' b n = mem_bytes mem b n"
proof (induction n arbitrary: b)
  case 0
  show ?case by simp
next
  case (Suc n)
  have "mem' b = mem b"
    using Suc.prems [of b] by simp
  moreover have "mem_bytes mem' (b + 1) n = mem_bytes mem (b + 1) n"
    using Suc.prems by (intro Suc.IH) simp
  ultimately show ?case by simp
qed

lemma length_mem_bytes [simp]: "length (mem_bytes mem a n) = n"
  by (induction n arbitrary: a) auto

text \<open>
  Claim C9 (key buffer framing). For every key buffer of 16 bytes that the output
  buffer does not overlap, every input and every length, \<open>mobi_pk1_decrypt\<close> and
  \<open>mobi_pk1_encrypt\<close> on memory return \<open>MOBI_SUCCESS\<close> and leave the 16 bytes at
  \<open>key\<close> as they were; only the local copy is changed. No allocation fails.
\<close>

theorem pk1_key_buffer_unchanged:
  assumes "False \<notin> set h" and "{key..<key + KEYSIZE} \<inter> {out..<out + len} = {}"
  shows "(\<exists>mem'. mobi_pk1_decrypt_mem (Some out) (Some inp) len key mem h =
                  Some ((MOBI_SUCCESS, mem'), tl h)
               \<and> mem_bytes mem' key KEYSIZE = mem_bytes mem key KEYSIZE)
       \<and> (\<exists>mem'. mobi_pk1_encrypt_mem (Some out) (Some inp) len key mem h =
                  Some ((MOBI_SUCCESS, mem'), tl h)
               \<and> mem_bytes mem' key KEYSIZE = mem_bytes mem key KEYSIZE)"
proof -
  have d: "mem_bytes (pk1_decrypt_mem_loop len pk1 kc out inp mem) key KEYSIZE =
      mem_bytes mem key KEYSIZE" for pk1 kc
    using assms(2) by (intro mem_bytes_cong pk1_decrypt_mem_loop_frame) auto
  have e: "mem_bytes (pk1_encrypt_mem_loop len pk1 kc out inp mem) key KEYSIZE =
      mem_bytes mem key KEYSIZE" for pk1 kc
    using assms(2) by (intro mem_bytes_cong pk1_encrypt_mem_loop_frame) auto
  show ?thesis
    using d e
    by (simp add: mobi_pk1_decrypt_mem_def mobi_pk1_encrypt_mem_def malloc_ok [OF assms(1)])
qed

lemma mem_bytes_mem_of_KEYVEC1:
  "mem_bytes (mem_of (KEYVEC1 @ [1, 2, 0, 0])) 0 KEYSIZE = KEYVEC1"
  by code_simp

theorem pk1_key_buffer_unchanged_witness:
  "False \<notin> set ([] :: heap) \<and> {0..<0 + KEYSIZE} \<inter> {18..<18 + 2} = {}
   \<and> (\<exists>mem'. mobi_pk1_decrypt_mem (Some 18) (Some 16) 2 0 (mem_of (KEYVEC1 @ [1, 2, 0, 0])) [] =
                Some ((MOBI_SUCCESS, mem'), [])
             \<and> mem_bytes mem' 0 KEYSIZE = KEYVEC1)
   \<and> (\<exists>mem'. mobi_pk1_encrypt_mem (Some 18) (Some 16) 2 0 (mem_of (KEYVEC1 @ [1, 2, 0, 0])) [] =
                Some ((MOBI_SUCCESS, mem'), [])
             \<and> mem_bytes mem' 0 KEYSIZE = KEYVEC1)"
proof -
  have n: "False \<notin> set ([] :: heap)"
    by simp
  have d: "{0..<0 + KEYSIZE} \<inter> {18..<18 + 2} = {}"
    by (simp add: KEYSIZE_def)
  show ?thesis
    using n d pk1_key_buffer_unchanged [OF n d, of 16 "mem_of (KEYVEC1 @ [1, 2, 0, 0])"]
    by (simp add: mem_bytes_mem_of_KEYVEC1)
qed

text \<open>
  The memory functions and the functions on buffer contents are two readings of the
  same code; they agree wherever the second applies.
\<close>

lemma pk1_decrypt_step_written:
  "pk1_decrypt_step (pk1, k, w) b =
     (case pk1_decrypt_step (pk1, k, []) b of (p, k', e) \<Rightarrow> (p, k', w @ e))"
  by (simp add: pk1_decrypt_step.simps Let_def split: prod.splits)

lemma pk1_decrypt_loop_written:
  "pk1_decrypt_loop (pk1, k, w) bs =
     (case pk1_decrypt_loop (pk1, k, []) bs of (p, k', e) \<Rightarrow> (p, k', w @ e))"
proof (induction bs arbitrary: pk1 k w)
  case Nil
  show ?case by simp
next
  case (Cons b bs)
  obtain p1 k1 e1 where s: "pk1_decrypt_step (pk1, k, []) b = (p1, k1, e1)"
    by (cases "pk1_decrypt_step (pk1, k, []) b") auto
  have sw: "pk1_decrypt_step (pk1, k, w) b = (p1, k1, w @ e1)"
    using pk1_decrypt_step_written [of pk1 k w b] s by simp
  show ?case
    using Cons.IH [of p1 k1 "w @ e1"] Cons.IH [of p1 k1 e1]
    by (simp add: s sw split: prod.splits)
qed

text \<open>
  When no byte of the input is overwritten before it is read (the output buffer starts
  at or below the input buffer, or after its end), the memory loop writes the bytes
  that the loop over the list of input bytes produces.
\<close>

lemma pk1_decrypt_mem_loop_bytes:
  assumes "out \<le> inp \<or> inp + len \<le> out"
  shows "mem_bytes (pk1_decrypt_mem_loop len pk1 key_copy out inp mem) out len =
           snd (snd (pk1_decrypt_loop (pk1, key_copy, []) (mem_bytes mem inp len)))"
  using assms
proof (induction len arbitrary: pk1 key_copy out inp mem)
  case 0
  show ?case by simp
next
  case (Suc len)
  obtain inter p1 where a: "pk1_assemble pk1 key_copy = (inter, p1)"
    by (cases "pk1_assemble pk1 key_copy") auto
  define c where "c = mem inp XOR ((ucast (drop_bit 8 inter) :: u8) XOR ucast (inter AND 0xff))"
  define k1 where "k1 = map (\<lambda>k. k XOR c) key_copy"
  define mem1 where "mem1 = mem(out := c)"
  define mem2 where "mem2 = pk1_decrypt_mem_loop len p1 k1 (out + 1) (inp + 1) mem1"
  have step: "pk1_decrypt_step (pk1, key_copy, []) (mem inp) = (p1, k1, [c])"
    by (simp add: pk1_decrypt_step.simps a c_def k1_def Let_def)
  have unf: "pk1_decrypt_mem_loop (Suc len) pk1 key_copy out inp mem = mem2"
    by (simp add: a c_def k1_def mem1_def mem2_def Let_def)
  have cond: "out + 1 \<le> inp + 1 \<or> inp + 1 + len \<le> out + 1"
    using Suc.prems by auto
  have same: "mem_bytes mem1 (inp + 1) len = mem_bytes mem (inp + 1) len"
    using Suc.prems by (intro mem_bytes_cong) (auto simp: mem1_def)
  have ih: "mem_bytes mem2 (out + 1) len =
      snd (snd (pk1_decrypt_loop (p1, k1, []) (mem_bytes mem (inp + 1) len)))"
    unfolding mem2_def using Suc.IH [OF cond, of p1 k1 mem1] same by simp
  have first: "mem2 out = c"
    unfolding mem2_def
    using pk1_decrypt_mem_loop_frame [of out "out + 1" len p1 k1 "inp + 1" mem1]
    by (simp add: mem1_def)
  have "snd (snd (pk1_decrypt_loop (pk1, key_copy, []) (mem_bytes mem inp (Suc len)))) =
      snd (snd (pk1_decrypt_loop (p1, k1, [c]) (mem_bytes mem (inp + 1) len)))"
    by (simp add: step)
  also have "\<dots> = c # snd (snd (pk1_decrypt_loop (p1, k1, []) (mem_bytes mem (inp + 1) len)))"
    using pk1_decrypt_loop_written [of p1 k1 "[c]" "mem_bytes mem (inp + 1) len"]
    by (simp split: prod.splits)
  finally show ?case
    unfolding unf using first ih by simp
qed

lemma pk1_encrypt_mem_loop_bytes:
  assumes "out \<le> inp \<or> inp + len \<le> out"
  shows "mem_bytes (pk1_encrypt_mem_loop len pk1 k out inp mem) out len =
           snd (snd (pk1_encrypt_loop (pk1, k, []) (mem_bytes mem inp len)))"
  using assms
proof (induction len arbitrary: pk1 k out inp mem)
  case 0
  show ?case by simp
next
  case (Suc len)
  obtain inter p1 where a: "pk1_assemble pk1 k = (inter, p1)"
    by (cases "pk1_assemble pk1 k") auto
  define c where "c = mem inp XOR ((ucast (drop_bit 8 inter) :: u8) XOR ucast (inter AND 0xff))"
  define k1 where "k1 = map (\<lambda>x. x XOR mem inp) k"
  define mem1 where "mem1 = mem(out := c)"
  define mem2 where "mem2 = pk1_encrypt_mem_loop len p1 k1 (out + 1) (inp + 1) mem1"
  have step: "pk1_encrypt_step (pk1, k, []) (mem inp) = (p1, k1, [c])"
    by (simp add: pk1_encrypt_step.simps a c_def k1_def Let_def)
  have unf: "pk1_encrypt_mem_loop (Suc len) pk1 k out inp mem = mem2"
    by (simp add: a c_def k1_def mem1_def mem2_def Let_def)
  have cond: "out + 1 \<le> inp + 1 \<or> inp + 1 + len \<le> out + 1"
    using Suc.prems by auto
  have same: "mem_bytes mem1 (inp + 1) len = mem_bytes mem (inp + 1) len"
    using Suc.prems by (intro mem_bytes_cong) (auto simp: mem1_def)
  have ih: "mem_bytes mem2 (out + 1) len =
      snd (snd (pk1_encrypt_loop (p1, k1, []) (mem_bytes mem (inp + 1) len)))"
    unfolding mem2_def using Suc.IH [OF cond, of p1 k1 mem1] same by simp
  have first: "mem2 out = c"
    unfolding mem2_def
    using pk1_encrypt_mem_loop_frame [of out "out + 1" len p1 k1 "inp + 1" mem1]
    by (simp add: mem1_def)
  have "snd (snd (pk1_encrypt_loop (pk1, k, []) (mem_bytes mem inp (Suc len)))) =
      snd (snd (pk1_encrypt_loop (p1, k1, [c]) (mem_bytes mem (inp + 1) len)))"
    by (simp add: step)
  also have "\<dots> = c # snd (snd (pk1_encrypt_loop (p1, k1, []) (mem_bytes mem (inp + 1) len)))"
    using pk1_encrypt_loop_written [of p1 k1 "[c]" "mem_bytes mem (inp + 1) len"]
    by (simp split: prod.splits)
  finally show ?case
    unfolding unf using first ih by simp
qed

text \<open>
  On such buffers the functions on memory return what the functions on buffer contents
  return: the same status, and the output buffer holds the same bytes afterwards.
\<close>

lemma mobi_pk1_mem_agrees:
  assumes "out \<le> inp \<or> inp + len \<le> out"
  shows "map_option (\<lambda>((ret, mem'), h'). ((ret, Some (mem_bytes mem' out len)), h'))
           (mobi_pk1_decrypt_mem (Some out) (Some inp) len key mem h) =
         mobi_pk1_decrypt (Some (mem_bytes mem out len)) (Some (mem_bytes mem inp len)) len
           (mem_bytes mem key KEYSIZE) h"
    and "map_option (\<lambda>((ret, mem'), h'). ((ret, Some (mem_bytes mem' out len)), h'))
           (mobi_pk1_encrypt_mem (Some out) (Some inp) len key mem h) =
         mobi_pk1_encrypt (Some (mem_bytes mem out len)) (Some (mem_bytes mem inp len)) len
           (mem_bytes mem key KEYSIZE) h"
  using pk1_decrypt_mem_loop_bytes [OF assms] pk1_encrypt_mem_loop_bytes [OF assms]
  by (auto simp: mobi_pk1_decrypt_mem_def mobi_pk1_decrypt_def mobi_pk1_encrypt_mem_def
      mobi_pk1_encrypt_def pk1_decrypt_bytes_def pk1_encrypt_bytes_def Let_def
      split: prod.splits)

subsection \<open>PC1: a call of length zero\<close>

text \<open>
  Claim C10 (zero-length call). For every key of 16 bytes and non-null input and output
  buffers, \<open>mobi_pk1_decrypt\<close> and \<open>mobi_pk1_encrypt\<close> with length 0 return
  \<open>MOBI_SUCCESS\<close> and leave the output buffer \<open>ob\<close> as it was, whatever the
  allocator does; so does \<open>mobi_decrypt\<close> on a handle that stores the key. On shared
  memory the two cipher functions leave every byte as it was.
\<close>

theorem pk1_zero_length:
  assumes "length key = KEYSIZE"
  shows "mobi_pk1_decrypt (Some ob) (Some ib) 0 key h =
           Some ((MOBI_SUCCESS, Some ob), snd (malloc h))
       \<and> mobi_pk1_encrypt (Some ob) (Some ib) 0 key h =
           Some ((MOBI_SUCCESS, Some ob), snd (malloc h))
       \<and> mobi_decrypt (Some ob) (Some ib) 0 (Some (m\<lparr>drm_key := Some key\<rparr>)) h =
           Some ((MOBI_SUCCESS, Some ob), snd (malloc h))
       \<and> mobi_pk1_decrypt_mem (Some out) (Some inp) 0 a mem h =
           Some ((MOBI_SUCCESS, mem), snd (malloc h))
       \<and> mobi_pk1_encrypt_mem (Some out) (Some inp) 0 a mem h =
           Some ((MOBI_SUCCESS, mem), snd (malloc h))"
  using assms
  by (cases "malloc h")
    (simp add: mobi_pk1_decrypt_def mobi_pk1_encrypt_def mobi_decrypt_def
      mobi_pk1_decrypt_mem_def mobi_pk1_encrypt_mem_def)

theorem pk1_zero_length_witness:
  "length KEYVEC1 = KEYSIZE
   \<and> mobi_pk1_decrypt (Some [7, 8]) (Some [1, 2, 3]) 0 KEYVEC1 [False] =
       Some ((MOBI_SUCCESS, Some [7, 8]), [])
   \<and> mobi_pk1_encrypt (Some [7, 8]) (Some [1, 2, 3]) 0 KEYVEC1 [False] =
       Some ((MOBI_SUCCESS, Some [7, 8]), [])
   \<and> mobi_decrypt (Some [7, 8]) (Some [1, 2, 3]) 0
        (Some \<lparr>drm_key = Some KEYVEC1, ph = None, rh = None, mh = None, rec = None\<rparr>) [False] =
       Some ((MOBI_SUCCESS, Some [7, 8]), [])
   \<and> mobi_pk1_decrypt_mem (Some 18) (Some 16) 0 0 (mem_of (KEYVEC1 @ [1, 2, 0, 0])) [False] =
       Some ((MOBI_SUCCESS, mem_of (KEYVEC1 @ [1, 2, 0, 0])), [])
   \<and> mobi_pk1_encrypt_mem (Some 18) (Some 16) 0 0 (mem_of (KEYVEC1 @ [1, 2, 0, 0])) [False] =
       Some ((MOBI_SUCCESS, mem_of (KEYVEC1 @ [1, 2, 0, 0])), [])"
proof -
  have l: "length KEYVEC1 = KEYSIZE"
    by (simp add: KEYVEC1_def KEYSIZE_def)
  show ?thesis
    using l pk1_zero_length [OF l, of "[7, 8]" "[1, 2, 3]" "[False]"
        "\<lparr>drm_key = None, ph = None, rh = None, mh = None, rec = None\<rparr>"
        18 16 0 "mem_of (KEYVEC1 @ [1, 2, 0, 0])"]
    by simp
qed

subsection \<open>The key checksum\<close>

lemma keychecksum_loop_sum:
  "i \<le> KEYSIZE \<Longrightarrow> length key = KEYSIZE \<Longrightarrow>
     keychecksum_loop key i s = s + sum_list (map unat (drop i key))"
proof (induction key i s rule: keychecksum_loop.induct)
  case (1 key i s)
  show ?case
  proof (cases "i < KEYSIZE")
    case True
    then have d: "drop i key = key ! i # drop (i + 1) key"
      using "1.prems" by (simp add: Cons_nth_drop_Suc)
    have "keychecksum_loop key i s = keychecksum_loop key (i + 1) (s + unat (key ! i))"
      using True by simp
    also have "\<dots> = (s + unat (key ! i)) + sum_list (map unat (drop (i + 1) key))"
      using "1.IH" [OF True] True "1.prems" by simp
    finally show ?thesis by (simp add: d)
  next
    case False
    then show ?thesis using "1.prems" by simp
  qed
qed

lemma KEYVEC1_checksum: "mobi_drm_keychecksum KEYVEC1 = 0x36"
  by code_simp

text \<open>
  Claim C5 as stated gives \<open>0xDA\<close> for the checksum of \<open>KEYVEC1\<close>; the code yields
  another byte.
\<close>

theorem keychecksum_KEYVEC1_not_DA: "mobi_drm_keychecksum KEYVEC1 \<noteq> 0xda"
  by code_simp

text \<open>
  Claim C5, amended (key checksum). The checksum of a key of 16 bytes is the sum of its
  bytes reduced modulo 256, and the checksum of \<open>KEYVEC1\<close> is \<open>0x36\<close>: the sum of
  its bytes is 2358 = 9 * 256 + 54.
\<close>

theorem keychecksum_sum:
  assumes "length key = KEYSIZE"
  shows "unat (mobi_drm_keychecksum key) = sum_list (map unat key) mod 256
       \<and> mobi_drm_keychecksum KEYVEC1 = 0x36"
proof -
  have "keychecksum_loop key 0 0 = sum_list (map unat key)"
    using keychecksum_loop_sum [of 0 key 0] assms by simp
  then have "unat (mobi_drm_keychecksum key) = sum_list (map unat key) mod 256"
    by (simp add: mobi_drm_keychecksum_def unat_of_nat)
  then show ?thesis using KEYVEC1_checksum by simp
qed

theorem keychecksum_sum_witness:
  "length KEYVEC1 = KEYSIZE
   \<and> sum_list (map unat KEYVEC1) = 2358
   \<and> unat (mobi_drm_keychecksum KEYVEC1) = 2358 mod 256
   \<and> mobi_drm_keychecksum KEYVEC1 = 0x36"
proof -
  have l: "length KEYVEC1 = KEYSIZE"
    by (simp add: KEYVEC1_def KEYSIZE_def)
  have s: "sum_list (map unat KEYVEC1) = 2358"
    by (simp add: KEYVEC1_def)
  show ?thesis using l s keychecksum_sum [OF l] by simp
qed

subsection \<open>The cipher functions when memory suffices\<close>

lemma pk1_decrypt_ok:
  assumes "length key = KEYSIZE" and "length ib = len" and "length ob = len" and "False \<notin> set h"
  shows "mobi_pk1_decrypt (Some ob) (Some ib) len key h =
           Some ((MOBI_SUCCESS, Some (pk1_decrypt_bytes key ib)), tl h)"
  using assms by (auto simp: mobi_pk1_decrypt_def malloc_ok)

lemma pk1_encrypt_ok:
  assumes "length key = KEYSIZE" and "length ib = len" and "length ob = len" and "False \<notin> set h"
  shows "mobi_pk1_encrypt (Some ob) (Some ib) len key h =
           Some ((MOBI_SUCCESS, Some (pk1_encrypt_bytes key ib)), tl h)"
  using assms by (auto simp: mobi_pk1_encrypt_def malloc_ok)

lemma length_KEYVEC1: "length KEYVEC1 = KEYSIZE"
  by (simp add: KEYVEC1_def KEYSIZE_def)

lemma length_KEYVEC1_V1: "length KEYVEC1_V1 = KEYSIZE"
  by (simp add: KEYVEC1_V1_def KEYSIZE_def)

subsection \<open>PID verification\<close>

lemma ff_mask: "(0xff :: u32) = mask 8"
  by (simp add: mask_eq_exp_minus_1)

lemma low_byte: "unat (ucast (c AND 0xff :: u32) :: u8) = unat c mod 256"
proof -
  have "c AND 0xff = take_bit 8 c"
    by (simp add: ff_mask take_bit_eq_mask)
  then show ?thesis
    by (simp add: unsigned_ucast_eq unsigned_take_bit_eq take_bit_eq_mod unat_mod_distrib)
qed

lemma map_length_34: "unat map_length = 34"
  by (simp add: map_length_def pid_map_def)

lemma pos_nat:
  "unat (((b div map_length) XOR (b mod map_length)) mod map_length) =
     ((unat b div 34) XOR (unat b mod 34)) mod 34"
  by (simp add: map_length_34 unat_div_distrib unat_mod_distrib unsigned_xor_eq)

lemma pidverify_step_char:
  "mobi_drm_pidverify_step (crc, chk) =
     (drop_bit 8 crc,
      chk @ [pid_map ! ((((unat crc mod 256) div 34) XOR ((unat crc mod 256) mod 34)) mod 34)])"
  by (simp add: Let_def pos_nat low_byte del: unsigned_numeral)

lemma pidverify_result:
  "mobi_drm_pidverify pid = MOBI_SUCCESS \<or> mobi_drm_pidverify pid = MOBI_DRM_PIDINV"
  by (simp add: mobi_drm_pidverify_def Let_def split: prod.splits)

lemma crc_12345678: "NOT (m_crc32 0xffffffff (map of_char ''12345678'')) = 4290905542"
  by code_simp

lemma pidverify_12345678EL: "mobi_drm_pidverify (map of_char ''12345678EL'') = MOBI_SUCCESS"
  by code_simp

lemma pid_checksum_chars_33: "pid_checksum_chars 33 (map of_char ''12345678EL'') = ''EV''"
proof -
  have t: "take 8 (map of_char ''12345678EL'' :: u8 list) = map of_char ''12345678''"
    by simp
  show ?thesis
    unfolding pid_checksum_chars_def t crc_12345678
    by (simp add: pid_map_def)
qed

text \<open>
  Claim C2 as stated computes the checksum characters over 33 symbols. The code
  accepts the PID \<^verbatim>\<open>12345678EL\<close>, for which the characters over 33 symbols are
  \<^verbatim>\<open>EV\<close>, not the \<^verbatim>\<open>EL\<close> the PID ends with; the alphabet of the code does not have 33
  characters.
\<close>

theorem pidverify_not_over_33:
  "mobi_drm_pidverify (map of_char ''12345678EL'') = MOBI_SUCCESS
   \<and> pid_checksum_chars 33 (map of_char ''12345678EL'') = ''EV''
   \<and> map of_char ''EV'' \<noteq> take 2 (drop 8 (map of_char ''12345678EL'' :: u8 list))
   \<and> length pid_map \<noteq> 33"
  using pidverify_12345678EL pid_checksum_chars_33 by (simp add: pid_map_def)

text \<open>
  Claim C2, amended (PID validator). For every PID array, validation computes
  \<open>crc = NOT (CRC32 0xFFFFFFFF pid[0..8])\<close>, folds it with \<open>crc XOR (crc >> 16)\<close>,
  and derives each of the two checksum characters as
  \<open>pid_map ! (((b div 34) XOR (b mod 34)) mod 34)\<close> from the low byte \<open>b\<close> of
  \<open>crc\<close>, shifting \<open>crc\<close> right by 8 in between; the alphabet has 34 characters.
  Validation succeeds iff the two characters equal \<open>pid[8..10]\<close> and returns
  \<open>MOBI_DRM_PIDINV\<close> otherwise.
\<close>

theorem pidverify_checksum:
  "mobi_drm_pidverify pid =
     (if map of_char (pid_checksum_chars 34 pid) = take 2 (drop 8 pid)
      then MOBI_SUCCESS else MOBI_DRM_PIDINV)
   \<and> length pid_map = 34"
  by (simp add: mobi_drm_pidverify_def pid_checksum_chars_def pidverify_step_char Let_def
      PIDSIZE_def pid_map_def del: mobi_drm_pidverify_step.simps)

subsection \<open>The DRM table and the v2 recovery\<close>

lemma mobi_drm_verify_accepted: "mobi_drm_verify (verification d) plain = v2_accepted d plain"
  by (simp add: mobi_drm_verify_def v2_accepted_def Let_def)

lemma getkey_v2_loop_first_key:
  assumes "length tempkey = KEYSIZE" and "\<forall>d \<in> set ds. length (cookie d) = COOKIESIZE"
    and "False \<notin> set h"
  shows "\<exists>h'. False \<notin> set h' \<and>
     mobi_drm_getkey_v2_loop tempkey (mobi_drm_keychecksum tempkey) (mobi_drm_keychecksum KEYVEC1)
         key ds h =
       Some ((case v2_first_key tempkey ds of
                None \<Rightarrow> (MOBI_DRM_KEYNOTFOUND, key)
              | Some k \<Rightarrow> (MOBI_SUCCESS, k)), h')"
  using assms(2,3)
proof (induction ds arbitrary: h)
  case Nil
  then show ?case by simp
next
  case (Cons d ds)
  have c: "length (cookie d) = COOKIESIZE"
    using Cons.prems(1) by simp
  have t: "False \<notin> set (tl h)"
    using Cons.prems(2) by (rule no_failure_tl)
  have ih: "\<exists>h'. False \<notin> set h' \<and>
     mobi_drm_getkey_v2_loop tempkey (mobi_drm_keychecksum tempkey) (mobi_drm_keychecksum KEYVEC1)
         key ds g =
       Some ((case v2_first_key tempkey ds of
                None \<Rightarrow> (MOBI_DRM_KEYNOTFOUND, key)
              | Some k \<Rightarrow> (MOBI_SUCCESS, k)), h')" if "False \<notin> set g" for g
    using Cons.IH [of g] Cons.prems(1) that by simp
  have d1: "mobi_pk1_decrypt (Some (replicate COOKIESIZE 0)) (Some (cookie d)) COOKIESIZE tempkey h =
      Some ((MOBI_SUCCESS, Some (pk1_decrypt_bytes tempkey (cookie d))), tl h)"
    by (rule pk1_decrypt_ok [OF assms(1) c _ Cons.prems(2)]) simp
  have d2: "mobi_pk1_decrypt (Some (replicate COOKIESIZE 0)) (Some (cookie d)) COOKIESIZE KEYVEC1 h =
      Some ((MOBI_SUCCESS, Some (pk1_decrypt_bytes KEYVEC1 (cookie d))), tl h)"
    by (rule pk1_decrypt_ok [OF length_KEYVEC1 c _ Cons.prems(2)]) simp
  consider (own) "checksum d = mobi_drm_keychecksum tempkey"
    | (default) "checksum d \<noteq> mobi_drm_keychecksum tempkey"
        "checksum d = mobi_drm_keychecksum KEYVEC1"
    | (skip) "checksum d \<noteq> mobi_drm_keychecksum tempkey"
        "checksum d \<noteq> mobi_drm_keychecksum KEYVEC1"
    by blast
  then show ?case
  proof cases
    case own
    show ?thesis
    proof (cases "v2_accepted d (pk1_decrypt_bytes tempkey (cookie d))")
      case True
      then show ?thesis
        using own d1 t
        by (auto simp: mobi_drm_verify_accepted v2_book_key_def v2_cookie_plain_def KEYSIZE_def)
    next
      case False
      then show ?thesis
        using own d1 ih [OF t]
        by (simp add: mobi_drm_verify_accepted v2_book_key_def v2_cookie_plain_def)
    qed
  next
    case default
    show ?thesis
    proof (cases "v2_accepted d (pk1_decrypt_bytes KEYVEC1 (cookie d))")
      case True
      then show ?thesis
        using default d2 t
        by (auto simp: mobi_drm_verify_accepted v2_book_key_def v2_cookie_plain_def KEYSIZE_def)
    next
      case False
      then show ?thesis
        using default d2 ih [OF t]
        by (simp add: mobi_drm_verify_accepted v2_book_key_def v2_cookie_plain_def)
    qed
  next
    case skip
    then show ?thesis
      using ih [OF Cons.prems(2)]
      by (simp add: v2_book_key_def v2_cookie_plain_def)
  qed
qed


lemma buffer_getpointer_length:
  "buffer_getpointer buf len = Some (bs, buf') \<Longrightarrow> length bs = len"
  by (auto simp: buffer_getpointer_def split: if_splits)

lemma parse_entry_cookie:
  "mobi_drm_parse_entry buf = Some (d, buf') \<Longrightarrow> length (cookie d) = COOKIESIZE"
  by (auto simp: mobi_drm_parse_entry_def split: option.splits dest!: buffer_getpointer_length)

lemma parse_loop_heap:
  "False \<notin> set h \<Longrightarrow>
     mobi_drm_parse_loop c n buf drm h =
       map_option (\<lambda>(r, g). (r, drop n h)) (mobi_drm_parse_loop c n buf drm [])"
proof (induction n arbitrary: buf drm h)
  case 0
  show ?case by simp
next
  case (Suc n)
  have t: "False \<notin> set (tl h)"
    using Suc.prems by (rule no_failure_tl)
  show ?case
  proof (cases "mobi_drm_parse_entry buf")
    case None
    then show ?thesis using Suc.prems by (simp add: malloc_ok)
  next
    case (Some e)
    obtain d buf' where e: "e = (d, buf')" by (cases e)
    have "mobi_drm_parse_loop c (Suc n) buf drm h = mobi_drm_parse_loop c n buf' (drm @ [d]) (tl h)"
      using Suc.prems Some e by (simp add: malloc_ok)
    also have "\<dots> = map_option (\<lambda>(r, g). (r, drop n (tl h)))
        (mobi_drm_parse_loop c n buf' (drm @ [d]) [])"
      by (rule Suc.IH [OF t])
    finally show ?thesis using Some e by (simp add: drop_Suc)
  qed
qed

lemma parse_loop_result:
  "mobi_drm_parse_loop c n buf drm [] = Some ((c', drm'), g) \<Longrightarrow>
     c' = c \<and> length drm' = length drm + n \<and>
     (\<forall>d \<in> set drm'. d \<in> set drm \<or> length (cookie d) = COOKIESIZE)"
proof (induction n arbitrary: buf drm)
  case 0
  then show ?case by simp
next
  case (Suc n)
  from Suc.prems obtain d buf' where e: "mobi_drm_parse_entry buf = Some (d, buf')"
    and l: "mobi_drm_parse_loop c n buf' (drm @ [d]) [] = Some ((c', drm'), g)"
    by (auto split: option.splits)
  have "length (cookie d) = COOKIESIZE"
    using e by (rule parse_entry_cookie)
  then show ?case using Suc.IH [OF l] by auto
qed

lemma parse_heap:
  assumes "False \<notin> set h"
  shows "\<exists>h'. False \<notin> set h' \<and>
     mobi_drm_parse m h = map_option (\<lambda>(r, g). (r, h')) (mobi_drm_parse m [])"
proof -
  have t: "False \<notin> set (tl h)"
    using assms by (rule no_failure_tl)
  have l: "mobi_drm_parse_loop c n buf drm (tl h) =
       map_option (\<lambda>(r, g). (r, drop n (tl h))) (mobi_drm_parse_loop c n buf drm [])"
    for c n buf drm
    by (rule parse_loop_heap [OF t])
  have d: "False \<notin> set (drop n (tl h))" for n
    using t by (rule no_failure_drop)
  show ?thesis
    using assms t d
    apply (simp add: mobi_drm_parse_def buffer_init_null_def malloc_ok l Let_def
        split: option.splits prod.splits)
    apply (auto simp: option.map_comp comp_def split: prod.splits)
    done
qed

lemma parse_result:
  assumes "mobi_drm_parse m [] = Some ((n, drm), g)"
  shows "take n drm = drm \<and> (\<forall>d \<in> set drm. length (cookie d) = COOKIESIZE)"
proof -
  have "length drm' = c \<and> (\<forall>d \<in> set drm'. length (cookie d) = COOKIESIZE)"
    if "mobi_drm_parse_loop c c buf [] [] = Some ((c', drm'), g')" for c c' buf drm' g'
    using parse_loop_result [OF that] by simp
  moreover have "c' = c"
    if "mobi_drm_parse_loop c c buf [] [] = Some ((c', drm'), g')" for c c' buf drm' g'
    using parse_loop_result [OF that] by simp
  ultimately show ?thesis
    using assms
    by (fastforce simp: mobi_drm_parse_def buffer_init_null_def Let_def
        split: option.splits prod.splits if_splits bool.splits)
qed

lemma getkey_v2_result:
  assumes "PIDSIZE - 2 \<le> length pid" and "mh m = Some mhd" and "drm_count mhd = Some cnt"
    and "False \<notin> set h"
    and "mobi_drm_parse (Some m) [] = Some ((n, drm), g)"
  shows "\<exists>h'. False \<notin> set h' \<and>
     mobi_drm_getkey_v2 key pid m h =
       Some ((case v2_first_key (v2_tempkey pid) drm of
                None \<Rightarrow> (MOBI_DRM_KEYNOTFOUND, key)
              | Some k \<Rightarrow> (MOBI_SUCCESS, k)), h')"
proof -
  define nocrc where "nocrc = take (PIDSIZE - 2) pid @ replicate (KEYSIZE - (PIDSIZE - 2)) 0"
  have ln: "length nocrc = KEYSIZE"
    using assms(1) by (simp add: nocrc_def PIDSIZE_def KEYSIZE_def)
  have tk: "pk1_encrypt_bytes KEYVEC1 nocrc = v2_tempkey pid"
    by (simp add: nocrc_def v2_tempkey_def PIDSIZE_def KEYSIZE_def)
  have e: "mobi_pk1_encrypt (Some (replicate KEYSIZE 0)) (Some nocrc) KEYSIZE KEYVEC1 h =
      Some ((MOBI_SUCCESS, Some (v2_tempkey pid)), tl h)"
    using pk1_encrypt_ok [OF length_KEYVEC1 ln _ assms(4), of "replicate KEYSIZE 0"] tk by simp
  have lt: "length (v2_tempkey pid) = KEYSIZE"
    using ln tk length_pk1_encrypt_bytes [of KEYVEC1 nocrc] by simp
  have t1: "False \<notin> set (tl h)"
    using assms(4) by (rule no_failure_tl)
  have t2: "False \<notin> set (tl (tl h))"
    using t1 by (rule no_failure_tl)
  obtain h3 where h3: "False \<notin> set h3"
    and p: "mobi_drm_parse (Some m) (tl (tl h)) = Some ((n, drm), h3)"
    using parse_heap [OF t2, of "Some m"] assms(5) by auto
  have r: "take n drm = drm" and c: "\<forall>d \<in> set drm. length (cookie d) = COOKIESIZE"
    using parse_result [OF assms(5)] by simp_all
  obtain h4 where h4: "False \<notin> set h4" and l: "mobi_drm_getkey_v2_loop (v2_tempkey pid) (mobi_drm_keychecksum (v2_tempkey pid))
         (mobi_drm_keychecksum KEYVEC1) key drm h3 =
       Some ((case v2_first_key (v2_tempkey pid) drm of
                None \<Rightarrow> (MOBI_DRM_KEYNOTFOUND, key)
              | Some k \<Rightarrow> (MOBI_SUCCESS, k)), h4)"
    using getkey_v2_loop_first_key [OF lt c h3, of key] by blast
  have "mobi_drm_getkey_v2 key pid m h =
       Some ((case v2_first_key (v2_tempkey pid) drm of
                None \<Rightarrow> (MOBI_DRM_KEYNOTFOUND, key)
              | Some k \<Rightarrow> (MOBI_SUCCESS, k)), h4)"
    unfolding mobi_drm_getkey_v2_def nocrc_def [symmetric]
    using assms(1,2,3) by (simp add: e Let_def malloc_ok [OF t1] p r l)
  then show ?thesis using h4 by blast
qed

lemma S4_tempkey:
  "v2_tempkey (map of_char ''12345678EL'') =
     [171, 53, 190, 180, 246, 163, 88, 145, 242, 70, 30, 39, 109, 83, 109, 186]"
  by code_simp

lemma S4_tempkey_checksum:
  "mobi_drm_keychecksum [171, 53, 190, 180, 246, 163, 88, 145, 242, 70, 30, 39, 109, 83, 109, 186] = 56"
  by code_simp

lemma S4_cookie:
  "pk1_encrypt_bytes [171, 53, 190, 180, 246, 163, 88, 145, 242, 70, 30, 39, 109, 83, 109, 186]
     [0, 0, 0, 7, 0, 0, 0, 1, 1, 2, 3, 4, 5, 6, 7, 8, 9, 10, 11, 12, 13, 14, 15, 16,
      0, 0, 0, 0, 0, 0, 0, 0] =
   drop 16 S4_entry"
  by code_simp

lemma S4_plain:
  "pk1_decrypt_bytes [171, 53, 190, 180, 246, 163, 88, 145, 242, 70, 30, 39, 109, 83, 109, 186]
     (drop 16 S4_entry) =
   [0, 0, 0, 7, 0, 0, 0, 1, 1, 2, 3, 4, 5, 6, 7, 8, 9, 10, 11, 12, 13, 14, 15, 16,
    0, 0, 0, 0, 0, 0, 0, 0]"
  unfolding S4_cookie [symmetric] by (rule pk1_decrypt_encrypt_bytes)

lemma S4_parse:
  "mobi_drm_parse (Some S4_book) [] =
     Some ((1, [\<lparr>verification = 7, size_drm = 48, type_drm = 1, checksum = 56,
                 cookie = drop 16 S4_entry\<rparr>]), [])"
  by code_simp

lemma S4_assumptions:
  "PIDSIZE - 2 \<le> length (map of_char ''12345678EL'' :: u8 list)"
  "mh S4_book = Some \<lparr>header_length = Some 232, version = Some 6, drm_offset = Some 0,
                          drm_count = Some 1, drm_size = Some 48\<rparr>"
  "drm_count \<lparr>header_length = Some 232, version = Some 6, drm_offset = Some 0,
                          drm_count = Some 1, drm_size = Some 48\<rparr> = Some 1"
  by (simp_all add: PIDSIZE_def S4_book_def)

lemma S4_first_key:
  "v2_first_key (v2_tempkey (map of_char ''12345678EL''))
     [\<lparr>verification = 7, size_drm = 48, type_drm = 1, checksum = 56, cookie = drop 16 S4_entry\<rparr>] =
   Some [1, 2, 3, 4, 5, 6, 7, 8, 9, 10, 11, 12, 13, 14, 15, 16]"
  unfolding S4_tempkey
  by (simp add: v2_book_key_def v2_cookie_plain_def S4_tempkey_checksum S4_plain
      v2_accepted_def be32_def)

text \<open>
  Claim C4 (v2 cookie acceptance). \<open>mobi_drm_verify\<close> accepts a decrypted cookie iff
  the big-endian word at bytes 0..4 equals the descriptor's verification and the low
  five bits of the big-endian word at bytes 4..8 are not all zero. When the handle has
  a MOBI header with a DRM count, the table parses and memory suffices, the v2 recovery
  returns \<open>MOBI_SUCCESS\<close> with bytes 8..24 of the first accepted decrypted cookie as
  the key, where a descriptor is decrypted with the temp key or with \<open>KEYVEC1\<close>
  according to its checksum; if no cookie of the table is accepted it returns
  \<open>MOBI_DRM_KEYNOTFOUND\<close> and leaves the key argument as it was.
\<close>

theorem getkey_v2_first_accepted:
  assumes "PIDSIZE - 2 \<le> length pid" and "mh m = Some mhd" and "drm_count mhd = Some cnt"
    and "False \<notin> set h"
    and "mobi_drm_parse (Some m) [] = Some ((n, drm), g)"
  shows "(\<forall>v ck. mobi_drm_verify v ck = (be32 ck 0 = v \<and> be32 ck 4 AND 0x1f \<noteq> 0))
       \<and> map_option fst (mobi_drm_getkey_v2 key pid m h) =
           Some (case v2_first_key (v2_tempkey pid) drm of
                   None \<Rightarrow> (MOBI_DRM_KEYNOTFOUND, key)
                 | Some k \<Rightarrow> (MOBI_SUCCESS, k))"
proof -
  obtain h' where "mobi_drm_getkey_v2 key pid m h =
       Some ((case v2_first_key (v2_tempkey pid) drm of
                None \<Rightarrow> (MOBI_DRM_KEYNOTFOUND, key)
              | Some k \<Rightarrow> (MOBI_SUCCESS, k)), h')"
    using getkey_v2_result [OF assms, of key] by blast
  then show ?thesis by (simp add: mobi_drm_verify_def)
qed

theorem getkey_v2_first_accepted_witness:
  "PIDSIZE - 2 \<le> length (map of_char ''12345678EL'' :: u8 list)
   \<and> mh S4_book = Some \<lparr>header_length = Some 232, version = Some 6, drm_offset = Some 0,
                          drm_count = Some 1, drm_size = Some 48\<rparr>
   \<and> False \<notin> set ([] :: heap)
   \<and> mobi_drm_parse (Some S4_book) [] =
       Some ((1, [\<lparr>verification = 7, size_drm = 48, type_drm = 1, checksum = 56,
                   cookie = drop 16 S4_entry\<rparr>]), [])
   \<and> map_option fst
        (mobi_drm_getkey_v2 (replicate 16 0) (map of_char ''12345678EL'') S4_book []) =
       Some (MOBI_SUCCESS, [1, 2, 3, 4, 5, 6, 7, 8, 9, 10, 11, 12, 13, 14, 15, 16])"
proof -
  have l: "PIDSIZE - 2 \<le> length (map of_char ''12345678EL'' :: u8 list)"
    by (simp add: PIDSIZE_def)
  have m: "mh S4_book = Some \<lparr>header_length = Some 232, version = Some 6, drm_offset = Some 0,
                          drm_count = Some 1, drm_size = Some 48\<rparr>"
    by (simp add: S4_book_def)
  have c: "drm_count \<lparr>header_length = Some 232, version = Some 6, drm_offset = Some 0,
                          drm_count = Some 1, drm_size = Some 48\<rparr> = Some 1"
    by simp
  have n: "False \<notin> set ([] :: heap)"
    by simp
  have "map_option fst
        (mobi_drm_getkey_v2 (replicate 16 0) (map of_char ''12345678EL'') S4_book []) =
       Some (MOBI_SUCCESS, [1, 2, 3, 4, 5, 6, 7, 8, 9, 10, 11, 12, 13, 14, 15, 16])"
    using getkey_v2_first_accepted [OF l m c n S4_parse, of "replicate 16 0"]
    unfolding S4_first_key by simp
  then show ?thesis
    using l m n S4_parse by blast
qed

text \<open>
  Claim C6 (parser guards) says that the parser yields no entry when
  \<open>drm_offset + drm_size\<close> exceeds the size of Record 0. The code adds the two
  \<^verbatim>\<open>uint32_t\<close> values modulo \<open>2 ^ 32\<close> before it compares: for \<open>wrap_book\<close> the sum
  16 + 4294967288 exceeds the 64 bytes of Record 0, the wrapped sum is 8, and the
  parser returns one entry.
\<close>

theorem parse_guard_wraps:
  "unat (16 :: u32) + unat (0xfffffff8 :: u32) > length wrap_record
   \<and> unat ((16 :: u32) + 0xfffffff8) = 8
   \<and> mobi_drm_parse (Some wrap_book) [] =
       Some ((1, [\<lparr>verification = 7, size_drm = 48, type_drm = 1, checksum = 56,
                   cookie = drop 32 wrap_record\<rparr>]), [])"
proof -
  have "mobi_drm_parse (Some wrap_book) [] =
       Some ((1, [\<lparr>verification = 7, size_drm = 48, type_drm = 1, checksum = 56,
                   cookie = drop 32 wrap_record\<rparr>]), [])"
    by code_simp
  then show ?thesis by (simp add: wrap_record_def)
qed

subsection \<open>The v1 recovery\<close>

text \<open>What \<open>mobi_drm_getkey_v1\<close> returns once the position in Record 0 is known.\<close>

lemma getkey_v1_at:
  assumes "ph m = Some phd" and "rec m = Some r" and "length key = KEYSIZE"
    and "False \<notin> set h"
    and "mobi_drm_getkey_v1_pos m phd = Some pos" and "pos + KEYSIZE \<le> length (data r)"
  shows "mobi_drm_getkey_v1 key (Some m) h =
           Some ((MOBI_SUCCESS, pk1_decrypt_bytes KEYVEC1_V1 (take KEYSIZE (drop pos (data r)))),
                 tl (tl h))"
proof -
  have t: "False \<notin> set (tl h)"
    using assms(4) by (rule no_failure_tl)
  define key_enc where "key_enc = take KEYSIZE (drop pos (data r))"
  have le: "length key_enc = KEYSIZE"
    using assms(6) by (simp add: key_enc_def)
  have d: "mobi_pk1_decrypt (Some key) (Some key_enc) KEYSIZE KEYVEC1_V1 (tl h) =
      Some ((MOBI_SUCCESS, Some (pk1_decrypt_bytes KEYVEC1_V1 key_enc)), tl (tl h))"
    by (rule pk1_decrypt_ok [OF length_KEYVEC1_V1 le assms(3) t])
  show ?thesis
    unfolding mobi_drm_getkey_v1_def
    using assms(1,2,5,6)
    by (simp add: buffer_init_null_def malloc_ok [OF assms(4)] rec_size_def buffer_setpos_def
        buffer_getraw_def buffer_getpointer_def key_enc_def [symmetric] d)
qed

text \<open>
  Claim C7 (v1 key source). For a book of encryption type 1 with a PalmDOC header and
  a Record 0, a key array of 16 bytes and enough memory, the recovery reads the 16
  encrypted key bytes of Record 0 at offset 14 when the type is \<^verbatim>\<open>TEXt\<close> and the
  creator \<^verbatim>\<open>REAd\<close>; otherwise at offset 144 when the MOBI header is absent or its
  version is absent or the sentinel \<^verbatim>\<open>0xFFFFFFFF\<close>; otherwise at offset
  \<open>header_length + 16\<close>. In each case the bytes lie inside Record 0, and the key
  returned is their PC1 decryption under \<open>KEYVEC1_V1\<close>, with no verification.
\<close>

theorem getkey_v1_key_source:
  assumes "rh m = Some rhd" and "encryption_type rhd = 1"
    and "ph m = Some phd" and "rec m = Some r" and "length key = KEYSIZE"
    and "False \<notin> set h"
  shows "(type phd = ''TEXt'' \<and> creator phd = ''REAd'' \<and> 14 + KEYSIZE \<le> length (data r) \<longrightarrow>
            mobi_drm_getkey key pid m h =
              Some ((MOBI_SUCCESS, pk1_decrypt_bytes KEYVEC1_V1 (take KEYSIZE (drop 14 (data r)))),
                    tl (tl h)))
       \<and> (\<not> (type phd = ''TEXt'' \<and> creator phd = ''REAd'')
            \<and> (mh m = None \<or> (\<exists>mhd. mh m = Some mhd
                 \<and> (version mhd = None \<or> version mhd = Some MOBI_NOTSET)))
            \<and> 144 + KEYSIZE \<le> length (data r) \<longrightarrow>
            mobi_drm_getkey key pid m h =
              Some ((MOBI_SUCCESS, pk1_decrypt_bytes KEYVEC1_V1 (take KEYSIZE (drop 144 (data r)))),
                    tl (tl h)))
       \<and> (\<not> (type phd = ''TEXt'' \<and> creator phd = ''REAd'')
            \<and> mh m = Some mhd \<and> version mhd = Some v \<and> v \<noteq> MOBI_NOTSET
            \<and> header_length mhd = Some hl
            \<and> unat hl + 16 + KEYSIZE \<le> length (data r) \<and> length (data r) < 2 ^ 32 \<longrightarrow>
            mobi_drm_getkey key pid m h =
              Some ((MOBI_SUCCESS,
                     pk1_decrypt_bytes KEYVEC1_V1 (take KEYSIZE (drop (unat hl + 16) (data r)))),
                    tl (tl h)))"
proof -
  have g: "mobi_drm_getkey key pid m h = mobi_drm_getkey_v1 key (Some m) h"
    using assms(1,2) by (simp add: mobi_drm_getkey_def)
  note at = getkey_v1_at [OF assms(3,4,5,6)]
  have c1: "mobi_drm_getkey_v1_pos m phd = Some 14"
    if "type phd = ''TEXt'' \<and> creator phd = ''REAd''"
    using that by (simp add: mobi_drm_getkey_v1_pos_def)
  have c2: "mobi_drm_getkey_v1_pos m phd = Some 144"
    if "\<not> (type phd = ''TEXt'' \<and> creator phd = ''REAd'')"
      and "mh m = None \<or> (\<exists>mhd. mh m = Some mhd
                 \<and> (version mhd = None \<or> version mhd = Some MOBI_NOTSET))"
    using that by (auto simp: mobi_drm_getkey_v1_pos_def split: option.splits)
  have c3: "mobi_drm_getkey_v1_pos m phd = Some (unat hl + 16)"
    if "\<not> (type phd = ''TEXt'' \<and> creator phd = ''REAd'')"
      and "mh m = Some mhd" and "version mhd = Some v" and "v \<noteq> MOBI_NOTSET"
      and "header_length mhd = Some hl" and "unat hl + 16 < 2 ^ 32"
  proof -
    have "unat (hl + 16) = unat hl + 16"
      using that(6) by (simp add: unat_add_lem [THEN iffD1])
    then show ?thesis
      using that by (auto simp: mobi_drm_getkey_v1_pos_def)
  qed
  show ?thesis
    unfolding g
    using at [OF c1] at [OF c2] at [OF c3]
    by (auto simp: KEYSIZE_def)
qed

lemma S6_key_enc_encrypts:
  "pk1_encrypt_bytes KEYVEC1_V1 [1, 2, 3, 4, 5, 6, 7, 8, 9, 10, 11, 12, 13, 14, 15, 16] = S6_key_enc"
  by code_simp

lemma S6_key_enc_decrypts:
  "pk1_decrypt_bytes KEYVEC1_V1 S6_key_enc = [1, 2, 3, 4, 5, 6, 7, 8, 9, 10, 11, 12, 13, 14, 15, 16]"
  unfolding S6_key_enc_encrypts [symmetric] by (rule pk1_decrypt_encrypt_bytes)

lemma length_S6_key_enc: "length S6_key_enc = 16"
  by (simp add: S6_key_enc_def)

theorem getkey_v1_key_source_witness:
  "mobi_drm_getkey (replicate 16 0) (replicate 10 0)
     \<lparr>drm_key = None, ph = Some \<lparr>type = ''TEXt'', creator = ''REAd''\<rparr>,
      rh = Some \<lparr>encryption_type = 1\<rparr>, mh = None,
      rec = Some \<lparr>data = replicate 14 0 @ S6_key_enc\<rparr>\<rparr> [] =
     Some ((MOBI_SUCCESS, [1, 2, 3, 4, 5, 6, 7, 8, 9, 10, 11, 12, 13, 14, 15, 16]), [])
   \<and> mobi_drm_getkey (replicate 16 0) (replicate 10 0)
     \<lparr>drm_key = None, ph = Some \<lparr>type = ''BOOK'', creator = ''MOBI''\<rparr>,
      rh = Some \<lparr>encryption_type = 1\<rparr>, mh = None,
      rec = Some \<lparr>data = replicate 144 0 @ S6_key_enc\<rparr>\<rparr> [] =
     Some ((MOBI_SUCCESS, [1, 2, 3, 4, 5, 6, 7, 8, 9, 10, 11, 12, 13, 14, 15, 16]), [])
   \<and> mobi_drm_getkey (replicate 16 0) (replicate 10 0)
     \<lparr>drm_key = None, ph = Some \<lparr>type = ''BOOK'', creator = ''MOBI''\<rparr>,
      rh = Some \<lparr>encryption_type = 1\<rparr>,
      mh = Some \<lparr>header_length = Some 232, version = Some 6, drm_offset = None,
                 drm_count = None, drm_size = None\<rparr>,
      rec = Some \<lparr>data = replicate 248 0 @ S6_key_enc\<rparr>\<rparr> [] =
     Some ((MOBI_SUCCESS, [1, 2, 3, 4, 5, 6, 7, 8, 9, 10, 11, 12, 13, 14, 15, 16]), [])"
proof -
  let ?key = "replicate 16 (0 :: u8)" and ?pid = "replicate 10 (0 :: u8)"
  let ?rh = "\<lparr>encryption_type = 1\<rparr>"
  let ?mh = "\<lparr>header_length = Some 232, version = Some 6, drm_offset = None,
                 drm_count = None, drm_size = None\<rparr>"
  let ?ph1 = "\<lparr>type = ''TEXt'', creator = ''REAd''\<rparr>"
  let ?ph2 = "\<lparr>type = ''BOOK'', creator = ''MOBI''\<rparr>"
  let ?r1 = "\<lparr>data = replicate 14 0 @ S6_key_enc\<rparr>"
  let ?r2 = "\<lparr>data = replicate 144 0 @ S6_key_enc\<rparr>"
  let ?r3 = "\<lparr>data = replicate 248 0 @ S6_key_enc\<rparr>"
  let ?b1 = "\<lparr>drm_key = None, ph = Some ?ph1, rh = Some ?rh, mh = None, rec = Some ?r1\<rparr>"
  let ?b2 = "\<lparr>drm_key = None, ph = Some ?ph2, rh = Some ?rh, mh = None, rec = Some ?r2\<rparr>"
  let ?b3 = "\<lparr>drm_key = None, ph = Some ?ph2, rh = Some ?rh, mh = Some ?mh, rec = Some ?r3\<rparr>"
  have e: "encryption_type ?rh = 1" by simp
  have k: "length ?key = KEYSIZE" by (simp add: KEYSIZE_def)
  have n: "False \<notin> set ([] :: heap)" by simp
  have w1: "mobi_drm_getkey ?key ?pid ?b1 [] =
      Some ((MOBI_SUCCESS, [1, 2, 3, 4, 5, 6, 7, 8, 9, 10, 11, 12, 13, 14, 15, 16]), [])"
    using getkey_v1_key_source [of ?b1 ?rh ?ph1 ?r1 ?key "[]" ?pid, OF _ e _ _ k n]
    by (simp add: KEYSIZE_def length_S6_key_enc S6_key_enc_decrypts)
  have w2: "mobi_drm_getkey ?key ?pid ?b2 [] =
      Some ((MOBI_SUCCESS, [1, 2, 3, 4, 5, 6, 7, 8, 9, 10, 11, 12, 13, 14, 15, 16]), [])"
    using getkey_v1_key_source [of ?b2 ?rh ?ph2 ?r2 ?key "[]" ?pid, OF _ e _ _ k n]
    by (simp add: KEYSIZE_def length_S6_key_enc S6_key_enc_decrypts)
  have w3: "mobi_drm_getkey ?key ?pid ?b3 [] =
      Some ((MOBI_SUCCESS, [1, 2, 3, 4, 5, 6, 7, 8, 9, 10, 11, 12, 13, 14, 15, 16]), [])"
    using getkey_v1_key_source [of ?b3 ?rh ?ph2 ?r3 ?key "[]" ?pid ?mh 6 232, OF _ e _ _ k n]
    by (simp add: KEYSIZE_def length_S6_key_enc S6_key_enc_decrypts MOBI_NOTSET_def)
  show ?thesis using w1 w2 w3 by simp
qed

subsection \<open>Storing the key\<close>

text \<open>
  Claim C3 as stated has a failed call leave the handle without a key. A handle that
  holds a key and is given a PID of the wrong length gets \<open>MOBI_DRM_PIDINV\<close> and
  still holds its key.
\<close>

theorem setkey_error_keeps_key:
  "mobi_drm_setkey_internal
     (Some \<lparr>drm_key = Some KEYVEC1, ph = None, rh = Some \<lparr>encryption_type = 2\<rparr>,
            mh = None, rec = None\<rparr>) (Some ''123'') [] =
   Some ((MOBI_DRM_PIDINV,
          Some \<lparr>drm_key = Some KEYVEC1, ph = None, rh = Some \<lparr>encryption_type = 2\<rparr>,
                 mh = None, rec = None\<rparr>), [])"
  by (simp add: mobi_drm_setkey_internal_def mobi_drm_setkey_pid_def strlen_def PIDSIZE_def)

text \<open>
  Claim C3, amended (error atomicity of set_key). For every handle and every PID, if
  \<open>mobi_drm_setkey_internal\<close> returns a status other than \<open>MOBI_SUCCESS\<close>, the
  handle is exactly as it was before the call: a handle that held no key holds none,
  and a key stored before the call is still stored.
\<close>

theorem setkey_error_keeps_handle:
  assumes "mobi_drm_setkey_internal m pid h = Some ((ret, m'), h')" and "ret \<noteq> MOBI_SUCCESS"
  shows "m' = m"
  using assms
  by (auto simp: mobi_drm_setkey_internal_def
      split: option.splits sum.splits prod.splits if_splits bool.splits)

theorem setkey_error_keeps_handle_witness:
  "mobi_drm_setkey_internal
     (Some \<lparr>drm_key = None, ph = None, rh = Some \<lparr>encryption_type = 2\<rparr>,
            mh = None, rec = None\<rparr>) None [] =
   Some ((MOBI_INIT_FAILED,
          Some \<lparr>drm_key = None, ph = None, rh = Some \<lparr>encryption_type = 2\<rparr>,
                 mh = None, rec = None\<rparr>), [])
   \<and> MOBI_INIT_FAILED \<noteq> MOBI_SUCCESS"
proof -
  let ?m = "Some \<lparr>drm_key = None, ph = None, rh = Some \<lparr>encryption_type = 2\<rparr>,
            mh = None, rec = None\<rparr>"
  obtain r where r: "mobi_drm_setkey_internal ?m None [] = Some ((MOBI_INIT_FAILED, r), [])"
    by (simp add: mobi_drm_setkey_internal_def mobi_drm_setkey_pid_def)
  have n: "MOBI_INIT_FAILED \<noteq> MOBI_SUCCESS"
    by simp
  have "r = ?m"
    by (rule setkey_error_keeps_handle [OF r n])
  then show ?thesis using r n by simp
qed

lemma of_char_eq_0: "(of_char c :: u8) = 0 \<longleftrightarrow> c = CHR 0x00"
proof -
  have "(of_char c :: u8) = of_nat (of_char c)"
    by (simp add: of_nat_of_char)
  moreover have "(of_nat (of_char c) :: u8) = 0 \<longleftrightarrow> (of_char c :: nat) = 0"
    using nat_of_char_less_256 [of c]
    by (simp add: word_of_nat_eq_0_iff dvd_eq_mod_eq_0)
  moreover have "(of_char c :: nat) = 0 \<longleftrightarrow> c = CHR 0x00"
    using of_char_eq_iff [of c "CHR 0x00", where ?'a = nat] by simp
  ultimately show ?thesis by simp
qed

lemma strlen_PIDSIZE_first:
  assumes "strlen p = PIDSIZE"
  shows "\<exists>b bs. (map of_char (take PIDSIZE p) :: u8 list) = b # bs \<and> b \<noteq> 0"
proof (cases p)
  case Nil
  then show ?thesis using assms by (simp add: strlen_def PIDSIZE_def)
next
  case (Cons c cs)
  then have "c \<noteq> CHR 0x00"
    using assms by (auto simp: strlen_def PIDSIZE_def split: if_splits)
  then show ?thesis using Cons by (simp add: PIDSIZE_def of_char_eq_0)
qed

text \<open>With a PID of the right length the dispatcher of a type above 1 runs the v2 recovery.\<close>

lemma getkey_runs_v2:
  assumes "rh m = Some r" and "1 < encryption_type r" and "strlen p = PIDSIZE"
  shows "mobi_drm_getkey key (map of_char (take PIDSIZE p)) m h =
           mobi_drm_getkey_v2 key (map of_char (take PIDSIZE p)) m h"
proof -
  obtain b bs where "(map of_char (take PIDSIZE p) :: u8 list) = b # bs" and "b \<noteq> 0"
    using strlen_PIDSIZE_first [OF assms(3)] by auto
  then show ?thesis
    using assms(1,2) by (simp add: mobi_drm_getkey_def)
qed

text \<open>
  Claim C8 (set_key input contract). For a handle with a Record 0 header: with
  encryption type 0 the call returns \<open>MOBI_SUCCESS\<close> and leaves the handle as it is;
  with an encryption type above 1 it returns \<open>MOBI_INIT_FAILED\<close> for a null PID,
  \<open>MOBI_DRM_PIDINV\<close> for a PID whose length is not 10 or whose checksum is invalid,
  and only otherwise runs the v2 recovery on the PID; it returns the status of a failed
  recovery, and stores the recovered key after a successful one (unless the block for
  a first key cannot be allocated).
\<close>

theorem setkey_contract:
  assumes "rh m = Some r"
  shows "(encryption_type r = 0 \<longrightarrow>
            mobi_drm_setkey_internal (Some m) pid h = Some ((MOBI_SUCCESS, Some m), h))
       \<and> (1 < encryption_type r \<longrightarrow>
            mobi_drm_setkey_internal (Some m) None h = Some ((MOBI_INIT_FAILED, Some m), h)
          \<and> (strlen p \<noteq> PIDSIZE \<or> mobi_drm_pidverify (map of_char (take PIDSIZE p)) \<noteq> MOBI_SUCCESS \<longrightarrow>
               mobi_drm_setkey_internal (Some m) (Some p) h = Some ((MOBI_DRM_PIDINV, Some m), h))
          \<and> (strlen p = PIDSIZE \<and> mobi_drm_pidverify (map of_char (take PIDSIZE p)) = MOBI_SUCCESS \<longrightarrow>
               mobi_drm_setkey_internal (Some m) (Some p) h =
                 (case mobi_drm_getkey_v2 (replicate KEYSIZE 0) (map of_char (take PIDSIZE p)) m h of
                    None \<Rightarrow> None
                  | Some ((ret, key), h') \<Rightarrow>
                      if ret \<noteq> MOBI_SUCCESS then Some ((ret, Some m), h')
                      else if drm_key m = None \<and> \<not> fst (malloc h')
                      then Some ((MOBI_MALLOC_FAILED, Some m), snd (malloc h'))
                      else Some ((MOBI_SUCCESS, Some (m\<lparr>drm_key := Some key\<rparr>)),
                                 if drm_key m = None then snd (malloc h') else h'))))"
proof -
  have zero: "mobi_drm_setkey_internal (Some m) pid h = Some ((MOBI_SUCCESS, Some m), h)"
    if "encryption_type r = 0"
    using assms that by (simp add: mobi_drm_setkey_internal_def)
  have null: "mobi_drm_setkey_internal (Some m) None h = Some ((MOBI_INIT_FAILED, Some m), h)"
    if "1 < encryption_type r"
    using assms that by (simp add: mobi_drm_setkey_internal_def mobi_drm_setkey_pid_def)
  have inv: "mobi_drm_setkey_internal (Some m) (Some p) h = Some ((MOBI_DRM_PIDINV, Some m), h)"
    if "1 < encryption_type r"
      and "strlen p \<noteq> PIDSIZE \<or> mobi_drm_pidverify (map of_char (take PIDSIZE p)) \<noteq> MOBI_SUCCESS"
    using assms that pidverify_result [of "map of_char (take PIDSIZE p)"]
    by (auto simp: mobi_drm_setkey_internal_def mobi_drm_setkey_pid_def Let_def)
  have run: "mobi_drm_setkey_internal (Some m) (Some p) h =
                 (case mobi_drm_getkey_v2 (replicate KEYSIZE 0) (map of_char (take PIDSIZE p)) m h of
                    None \<Rightarrow> None
                  | Some ((ret, key), h') \<Rightarrow>
                      if ret \<noteq> MOBI_SUCCESS then Some ((ret, Some m), h')
                      else if drm_key m = None \<and> \<not> fst (malloc h')
                      then Some ((MOBI_MALLOC_FAILED, Some m), snd (malloc h'))
                      else Some ((MOBI_SUCCESS, Some (m\<lparr>drm_key := Some key\<rparr>)),
                                 if drm_key m = None then snd (malloc h') else h'))"
    if "1 < encryption_type r" and "strlen p = PIDSIZE"
      and "mobi_drm_pidverify (map of_char (take PIDSIZE p)) = MOBI_SUCCESS"
    using assms that getkey_runs_v2 [OF assms that(1,2), of "replicate KEYSIZE 0" h]
    by (auto simp: mobi_drm_setkey_internal_def mobi_drm_setkey_pid_def Let_def
        split: option.splits prod.splits bool.splits)
  show ?thesis
    using zero null inv run by blast
qed

lemma pidverify_12345678AB: "mobi_drm_pidverify (map of_char ''12345678AB'') = MOBI_DRM_PIDINV"
  by code_simp

theorem setkey_contract_witness:
  "mobi_drm_setkey_internal
     (Some \<lparr>drm_key = None, ph = None, rh = Some \<lparr>encryption_type = 0\<rparr>, mh = None,
            rec = None\<rparr>) (Some ''12345678EL'') [] =
     Some ((MOBI_SUCCESS,
            Some \<lparr>drm_key = None, ph = None, rh = Some \<lparr>encryption_type = 0\<rparr>, mh = None,
                   rec = None\<rparr>), [])
   \<and> rh S4_book = Some \<lparr>encryption_type = 2\<rparr>
   \<and> mobi_drm_setkey_internal (Some S4_book) None [] = Some ((MOBI_INIT_FAILED, Some S4_book), [])
   \<and> mobi_drm_setkey_internal (Some S4_book) (Some ''123'') [] =
       Some ((MOBI_DRM_PIDINV, Some S4_book), [])
   \<and> mobi_drm_setkey_internal (Some S4_book) (Some ''12345678AB'') [] =
       Some ((MOBI_DRM_PIDINV, Some S4_book), [])
   \<and> map_option fst (mobi_drm_setkey_internal (Some S4_book) (Some ''12345678EL'') []) =
       Some (MOBI_SUCCESS,
             Some (S4_book\<lparr>drm_key := Some [1, 2, 3, 4, 5, 6, 7, 8, 9, 10, 11, 12, 13, 14, 15, 16]\<rparr>))"
proof -
  let ?b0 = "\<lparr>drm_key = None, ph = None, rh = Some \<lparr>encryption_type = 0\<rparr>, mh = None,
            rec = None\<rparr>"
  have r0: "rh ?b0 = Some \<lparr>encryption_type = 0\<rparr>"
    by simp
  have r2: "rh S4_book = Some \<lparr>encryption_type = 2\<rparr>"
    by (simp add: S4_book_def)
  have w0: "mobi_drm_setkey_internal (Some ?b0) (Some ''12345678EL'') [] =
      Some ((MOBI_SUCCESS, Some ?b0), [])"
    using setkey_contract [OF r0, of "Some ''12345678EL''" "[]"] by simp
  have w1: "mobi_drm_setkey_internal (Some S4_book) None [] =
      Some ((MOBI_INIT_FAILED, Some S4_book), [])"
    using setkey_contract [OF r2, of _ "[]"] by simp
  have w2: "mobi_drm_setkey_internal (Some S4_book) (Some ''123'') [] =
      Some ((MOBI_DRM_PIDINV, Some S4_book), [])"
    using setkey_contract [OF r2, of _ "[]" "''123''"] by (simp add: strlen_def PIDSIZE_def)
  have t: "map of_char (take PIDSIZE ''12345678AB'') = (map of_char ''12345678AB'' :: u8 list)"
    "map of_char (take PIDSIZE ''12345678EL'') = (map of_char ''12345678EL'' :: u8 list)"
    by (simp_all add: PIDSIZE_def)
  have s: "strlen ''12345678AB'' = PIDSIZE" "strlen ''12345678EL'' = PIDSIZE"
    by (simp_all add: strlen_def PIDSIZE_def)
  have w3: "mobi_drm_setkey_internal (Some S4_book) (Some ''12345678AB'') [] =
      Some ((MOBI_DRM_PIDINV, Some S4_book), [])"
    using setkey_contract [OF r2, of _ "[]" "''12345678AB''"]
    unfolding t pidverify_12345678AB by simp
  have k: "KEYSIZE = 16"
    by (simp add: KEYSIZE_def)
  have e: "False \<notin> set ([] :: heap)"
    by simp
  obtain g where g: "False \<notin> set g"
    and v2: "mobi_drm_getkey_v2 (replicate 16 0) (map of_char ''12345678EL'') S4_book [] =
      Some ((MOBI_SUCCESS, [1, 2, 3, 4, 5, 6, 7, 8, 9, 10, 11, 12, 13, 14, 15, 16]), g)"
    using getkey_v2_result [OF S4_assumptions e S4_parse, of "replicate 16 0"]
    unfolding S4_first_key by auto
  have n: "drm_key S4_book = None"
    by (simp add: S4_book_def)
  have w4: "map_option fst (mobi_drm_setkey_internal (Some S4_book) (Some ''12345678EL'') []) =
       Some (MOBI_SUCCESS,
             Some (S4_book\<lparr>drm_key := Some [1, 2, 3, 4, 5, 6, 7, 8, 9, 10, 11, 12, 13, 14, 15, 16]\<rparr>))"
    using setkey_contract [OF r2, of _ "[]" "''12345678EL''"]
    unfolding t s k pidverify_12345678EL v2
    using malloc_no_failure [OF g] by (simp add: n)
  show ?thesis
    using w0 r2 w1 w2 w3 w4 by blast
qed

end
